theory Spec2Isabelle
  imports Main
begin

section \<open>Data model\<close>

text \<open>
  The program verifies counterexamples to conjectures on dual priority scheduling by
  simulating the synchronous arrival sequence (SAS) of four periodic tasks.

  \<^verbatim>\<open>struct task_t\<close> becomes a record with one field per member. The members of
  type \<^verbatim>\<open>int\<close> and \<^verbatim>\<open>long\<close> are integers. The time \<^verbatim>\<open>t\<close>, the release times and the
  counters of type \<^verbatim>\<open>long\<close> only move in steps of one from small values, so they are
  modelled without a width; the one expression whose value leaves the range of
  \<^verbatim>\<open>int\<close> for moderate inputs, the product of the four \<^verbatim>\<open>period + 1\<close> in
  \<^verbatim>\<open>test_all_phase_change_points\<close>, is modelled with the 32-bit wrap-around written out.

  The array \<^verbatim>\<open>tasks[NUM_TASKS]\<close> is a function from the index to the task; the code
  only reads and writes the indices below \<^verbatim>\<open>NUM_TASKS\<close>. A pointer to a task of the
  task set, as returned by \<^verbatim>\<open>simulate_sas\<close>, is the index of that task, and
  \<^verbatim>\<open>NULL\<close> is \<open>None\<close>.
\<close>

record task_t =
  wcet :: int
  period :: int
  phase_1_prio :: int
  phase_2_prio :: int
  phase_change_point :: int
  last_release_time :: int
  remaining_wcet :: int

record taskset_t =
  tasks :: "nat \<Rightarrow> task_t"
  hyper_period :: int

definition NUM_TASKS :: nat where
  "NUM_TASKS = 4"

text \<open>Assignment to a member of \<^verbatim>\<open>ts->tasks[i]\<close>.\<close>

definition upd_task :: "taskset_t \<Rightarrow> nat \<Rightarrow> (task_t \<Rightarrow> task_t) \<Rightarrow> taskset_t" where
  "upd_task ts i f = ts\<lparr>tasks := (tasks ts)(i := f (tasks ts i))\<rparr>"

section \<open>Simulation of the SAS\<close>

function reset_loop :: "taskset_t \<Rightarrow> nat \<Rightarrow> taskset_t" where
  "reset_loop ts i =
     (if i < NUM_TASKS
      then reset_loop
             (upd_task ts i (\<lambda>T. T\<lparr>last_release_time := - 1, remaining_wcet := - 1\<rparr>))
             (i + 1)
      else ts)"
  by pat_completeness auto
termination
  by (relation "measure (\<lambda>(ts, i). NUM_TASKS - i)") auto

declare reset_loop.simps [simp del]

definition reset_simulation_state :: "taskset_t \<Rightarrow> taskset_t" where
  "reset_simulation_state ts = reset_loop ts 0"

definition is_active :: "task_t \<Rightarrow> bool" where
  "is_active task = (remaining_wcet task > 0)"

definition can_release :: "task_t \<Rightarrow> int \<Rightarrow> bool" where
  "can_release task t =
     (if last_release_time task < 0 then True
      else t - last_release_time task \<ge> period task)"

definition release :: "task_t \<Rightarrow> int \<Rightarrow> task_t" where
  "release task t = task\<lparr>last_release_time := t, remaining_wcet := wcet task\<rparr>"

definition has_missed_deadline :: "task_t \<Rightarrow> int \<Rightarrow> bool" where
  "has_missed_deadline task t = (is_active task \<and> can_release task t)"

definition get_priority :: "task_t \<Rightarrow> int \<Rightarrow> int" where
  "get_priority task t =
     (if t - last_release_time task < phase_change_point task
      then phase_1_prio task
      else phase_2_prio task)"

text \<open>
  The loop of \<^verbatim>\<open>get_highest_prio_active_task\<close>, from index \<open>i\<close> on, with the
  current values of \<^verbatim>\<open>highest_prio\<close> and \<^verbatim>\<open>hp_task\<close>.
\<close>

function hp_loop :: "taskset_t \<Rightarrow> int \<Rightarrow> nat \<Rightarrow> int \<Rightarrow> nat option \<Rightarrow> nat option" where
  "hp_loop ts t i highest_prio hp_task =
     (if i < NUM_TASKS
      then (if is_active (tasks ts i)
            then (let prio = get_priority (tasks ts i) t
                  in if prio < highest_prio \<or> highest_prio < 0
                     then hp_loop ts t (i + 1) prio (Some i)
                     else hp_loop ts t (i + 1) highest_prio hp_task)
            else hp_loop ts t (i + 1) highest_prio hp_task)
      else hp_task)"
  by pat_completeness auto
termination
  by (relation "measure (\<lambda>(ts, t, i, h, p). NUM_TASKS - i)") auto

declare hp_loop.simps [simp del]

definition get_highest_prio_active_task :: "taskset_t \<Rightarrow> int \<Rightarrow> nat option" where
  "get_highest_prio_active_task ts t = hp_loop ts t 0 (- 1) None"

text \<open>The first loop of the body of \<^verbatim>\<open>simulate_sas\<close>: the first task to miss.\<close>

function miss_loop :: "taskset_t \<Rightarrow> int \<Rightarrow> nat \<Rightarrow> nat option" where
  "miss_loop ts t i =
     (if i < NUM_TASKS
      then (if has_missed_deadline (tasks ts i) t then Some i
            else miss_loop ts t (i + 1))
      else None)"
  by pat_completeness auto
termination
  by (relation "measure (\<lambda>(ts, t, i). NUM_TASKS - i)") auto

declare miss_loop.simps [simp del]

text \<open>The second loop: release a job of every task that can release at \<open>t\<close>.\<close>

function release_loop :: "taskset_t \<Rightarrow> int \<Rightarrow> nat \<Rightarrow> taskset_t" where
  "release_loop ts t i =
     (if i < NUM_TASKS
      then (if can_release (tasks ts i) t
            then release_loop (upd_task ts i (\<lambda>T. release T t)) t (i + 1)
            else release_loop ts t (i + 1))
      else ts)"
  by pat_completeness auto
termination
  by (relation "measure (\<lambda>(ts, t, i). NUM_TASKS - i)") auto

declare release_loop.simps [simp del]

text \<open>The last part of the body: execute the highest-priority active task.\<close>

definition execute :: "taskset_t \<Rightarrow> int \<Rightarrow> taskset_t" where
  "execute ts t =
     (case get_highest_prio_active_task ts t of
        None \<Rightarrow> ts
      | Some j \<Rightarrow> upd_task ts j (\<lambda>T. T\<lparr>remaining_wcet := remaining_wcet T - 1\<rparr>))"

text \<open>One pass through the body of the loop when no deadline is missed at \<open>t\<close>.\<close>

definition tick :: "taskset_t \<Rightarrow> int \<Rightarrow> taskset_t" where
  "tick ts t = execute (release_loop ts t 0) t"

lemma hyper_period_upd_task [simp]: "hyper_period (upd_task ts i f) = hyper_period ts"
  by (simp add: upd_task_def)

lemma hyper_period_release_loop [simp]:
  "hyper_period (release_loop ts t i) = hyper_period ts"
  by (induction ts t i rule: release_loop.induct) (subst release_loop.simps, simp)

lemma hyper_period_execute [simp]: "hyper_period (execute ts t) = hyper_period ts"
  by (simp add: execute_def split: option.splits)

lemma hyper_period_tick [simp]: "hyper_period (tick ts t) = hyper_period ts"
  by (simp add: tick_def)

function sim_loop :: "taskset_t \<Rightarrow> int \<Rightarrow> taskset_t \<times> nat option" where
  "sim_loop ts t =
     (if t \<le> hyper_period ts
      then (case miss_loop ts t 0 of
              Some i \<Rightarrow> (ts, Some i)
            | None \<Rightarrow> sim_loop (tick ts t) (t + 1))
      else (ts, None))"
  by pat_completeness auto
termination
  by (relation "measure (\<lambda>(ts, t). nat (hyper_period ts + 1 - t))") auto

declare sim_loop.simps [simp del]

definition simulate_sas :: "taskset_t \<Rightarrow> taskset_t \<times> nat option" where
  "simulate_sas ts = sim_loop (reset_simulation_state ts) 0"

section \<open>The loops over the task indices\<close>

lemma tasks_upd_task [simp]:
  "tasks (upd_task ts i f) j = (if j = i then f (tasks ts i) else tasks ts j)"
  by (simp add: upd_task_def)

lemma tasks_reset_loop:
  "tasks (reset_loop ts i) j =
     (if i \<le> j \<and> j < NUM_TASKS
      then (tasks ts j)\<lparr>last_release_time := - 1, remaining_wcet := - 1\<rparr>
      else tasks ts j)"
proof (induction ts i rule: reset_loop.induct)
  case (1 ts i)
  show ?case
  proof (cases "i < NUM_TASKS")
    case True
    with 1 show ?thesis
      by (subst reset_loop.simps) (auto simp: not_less_eq_eq)
  next
    case False
    then show ?thesis
      by (subst reset_loop.simps) simp
  qed
qed

lemma hyper_period_reset_loop [simp]: "hyper_period (reset_loop ts i) = hyper_period ts"
  by (induction ts i rule: reset_loop.induct) (subst reset_loop.simps, simp)

lemma tasks_release_loop:
  "tasks (release_loop ts t i) j =
     (if i \<le> j \<and> j < NUM_TASKS \<and> can_release (tasks ts j) t
      then release (tasks ts j) t
      else tasks ts j)"
proof (induction ts t i rule: release_loop.induct)
  case (1 ts t i)
  show ?case
  proof (cases "i < NUM_TASKS")
    case True
    with 1 show ?thesis
      by (subst release_loop.simps) (auto simp: not_less_eq_eq)
  next
    case False
    then show ?thesis
      by (subst release_loop.simps) simp
  qed
qed

lemma miss_loop_None:
  "miss_loop ts t i = None \<longleftrightarrow> (\<forall>j. i \<le> j \<and> j < NUM_TASKS \<longrightarrow> \<not> has_missed_deadline (tasks ts j) t)"
proof (induction ts t i rule: miss_loop.induct)
  case (1 ts t i)
  show ?case
  proof (cases "i < NUM_TASKS")
    case True
    note lt = this
    show ?thesis
    proof (cases "has_missed_deadline (tasks ts i) t")
      case True
      with lt show ?thesis
        by (subst miss_loop.simps) auto
    next
      case False
      have "(\<forall>j. i \<le> j \<and> j < NUM_TASKS \<longrightarrow> \<not> has_missed_deadline (tasks ts j) t) \<longleftrightarrow>
            (\<forall>j. i + 1 \<le> j \<and> j < NUM_TASKS \<longrightarrow> \<not> has_missed_deadline (tasks ts j) t)"
        using False by (metis Suc_eq_plus1 Suc_leI le_neq_implies_less add_leD1)
      with lt False 1 show ?thesis
        by (subst miss_loop.simps) simp
    qed
  next
    case False
    then show ?thesis
      by (subst miss_loop.simps) auto
  qed
qed

lemma miss_loop_Some:
  "miss_loop ts t i = Some k \<longleftrightarrow>
     i \<le> k \<and> k < NUM_TASKS \<and> has_missed_deadline (tasks ts k) t \<and>
     (\<forall>j. i \<le> j \<and> j < k \<longrightarrow> \<not> has_missed_deadline (tasks ts j) t)"
proof (induction ts t i rule: miss_loop.induct)
  case (1 ts t i)
  show ?case
  proof (cases "i < NUM_TASKS")
    case True
    note lt = this
    show ?thesis
    proof (cases "has_missed_deadline (tasks ts i) t")
      case True
      have "miss_loop ts t i = Some i"
        using lt True by (subst miss_loop.simps) simp
      moreover have "(i \<le> k \<and> k < NUM_TASKS \<and> has_missed_deadline (tasks ts k) t \<and>
          (\<forall>j. i \<le> j \<and> j < k \<longrightarrow> \<not> has_missed_deadline (tasks ts j) t)) \<longleftrightarrow> i = k"
        using lt True by (cases "i = k") (auto simp: le_less)
      ultimately show ?thesis by auto
    next
      case False
      have eq: "miss_loop ts t i = miss_loop ts t (i + 1)"
        using lt False by (subst miss_loop.simps) simp
      have "(i \<le> k \<and> k < NUM_TASKS \<and> has_missed_deadline (tasks ts k) t \<and>
          (\<forall>j. i \<le> j \<and> j < k \<longrightarrow> \<not> has_missed_deadline (tasks ts j) t)) \<longleftrightarrow>
         (i + 1 \<le> k \<and> k < NUM_TASKS \<and> has_missed_deadline (tasks ts k) t \<and>
          (\<forall>j. i + 1 \<le> j \<and> j < k \<longrightarrow> \<not> has_missed_deadline (tasks ts j) t))"
        using False by (metis Suc_eq_plus1 Suc_leI le_neq_implies_less add_leD1)
      with eq 1 lt False show ?thesis by simp
    qed
  next
    case False
    then show ?thesis
      by (subst miss_loop.simps) auto
  qed
qed

text \<open>The invariant of the loop of get_highest_prio_active_task.\<close>

definition hp_inv :: "taskset_t \<Rightarrow> int \<Rightarrow> nat \<Rightarrow> int \<Rightarrow> nat option \<Rightarrow> bool" where
  "hp_inv ts t i highest_prio hp_task =
     (case hp_task of
        None \<Rightarrow> highest_prio < 0 \<and> (\<forall>j<i. \<not> is_active (tasks ts j))
      | Some k \<Rightarrow> k < i \<and> is_active (tasks ts k) \<and> highest_prio = get_priority (tasks ts k) t \<and>
          (\<forall>j<i. is_active (tasks ts j) \<longrightarrow> highest_prio \<le> get_priority (tasks ts j) t) \<and>
          (\<forall>j<k. is_active (tasks ts j) \<longrightarrow> highest_prio < get_priority (tasks ts j) t))"

lemma hp_loop_inv:
  assumes "\<forall>j<NUM_TASKS. 0 \<le> get_priority (tasks ts j) t"
    and "hp_inv ts t i highest_prio hp_task" and "i \<le> NUM_TASKS"
  shows "hp_inv ts t NUM_TASKS (case hp_loop ts t i highest_prio hp_task of None \<Rightarrow> - 1 | Some k \<Rightarrow> get_priority (tasks ts k) t)
           (hp_loop ts t i highest_prio hp_task)"
  using assms
proof (induction ts t i highest_prio hp_task rule: hp_loop.induct)
  case (1 ts t i highest_prio hp_task)
  show ?case
  proof (cases "i < NUM_TASKS")
    case False
    with "1.prems" have "i = NUM_TASKS" by simp
    with "1.prems"(2) show ?thesis
      by (subst (1 2) hp_loop.simps) (auto simp: hp_inv_def split: option.splits)
  next
    case lt: True
    show ?thesis
    proof (cases "is_active (tasks ts i)")
      case False
      have inv: "hp_inv ts t (i + 1) highest_prio hp_task"
        using "1.prems"(2) False
        by (auto simp: hp_inv_def less_Suc_eq split: option.splits)
      have "hp_loop ts t i highest_prio hp_task = hp_loop ts t (i + 1) highest_prio hp_task"
        using lt False by (subst hp_loop.simps) simp
      with "1.IH"(3)[OF lt False "1.prems"(1) inv] lt show ?thesis by simp
    next
      case act: True
      define prio where "prio = get_priority (tasks ts i) t"
      have p0: "0 \<le> prio" using "1.prems"(1) lt by (simp add: prio_def)
      show ?thesis
      proof (cases "prio < highest_prio \<or> highest_prio < 0")
        case True
        have inv: "hp_inv ts t (i + 1) prio (Some i)"
          using "1.prems"(1,2) act True p0 lt
          by (auto simp: hp_inv_def less_Suc_eq prio_def split: option.splits)
             (metis less_trans not_le)+
        have "hp_loop ts t i highest_prio hp_task = hp_loop ts t (i + 1) prio (Some i)"
          using lt act True by (subst hp_loop.simps) (simp add: prio_def Let_def)
        with "1.IH"(1)[OF lt act prio_def True "1.prems"(1) inv] lt show ?thesis by simp
      next
        case False
        have inv: "hp_inv ts t (i + 1) highest_prio hp_task"
          using "1.prems"(2) act False p0
          by (auto simp: hp_inv_def less_Suc_eq prio_def split: option.splits)
        have "hp_loop ts t i highest_prio hp_task = hp_loop ts t (i + 1) highest_prio hp_task"
          using lt act False by (subst hp_loop.simps) (simp add: prio_def Let_def)
        with "1.IH"(2)[OF lt act prio_def False "1.prems"(1) inv] lt show ?thesis by simp
      qed
    qed
  qed
qed

lemma get_priority_nonneg:
  "0 \<le> phase_1_prio T \<Longrightarrow> 0 \<le> phase_2_prio T \<Longrightarrow> 0 \<le> get_priority T t"
  by (simp add: get_priority_def)

lemma hp_inv_result:
  assumes "\<forall>j<NUM_TASKS. 0 \<le> get_priority (tasks ts j) t"
  shows "hp_inv ts t NUM_TASKS
           (case get_highest_prio_active_task ts t of
              None \<Rightarrow> - 1 | Some k \<Rightarrow> get_priority (tasks ts k) t)
           (get_highest_prio_active_task ts t)"
  unfolding get_highest_prio_active_task_def
  by (rule hp_loop_inv [OF assms]) (simp_all add: hp_inv_def)

section \<open>Constructing task sets\<close>

text \<open>
  A task with its fixed parameters and its dual-priority parameters, and a task set of
  four tasks, as the drivers build them. The simulation state is reset by every
  simulation.
\<close>

definition mk_task :: "int \<Rightarrow> int \<Rightarrow> int \<Rightarrow> int \<Rightarrow> int \<Rightarrow> task_t" where
  "mk_task c p p1 p2 pcp =
     \<lparr>wcet = c, period = p, phase_1_prio = p1, phase_2_prio = p2,
      phase_change_point = pcp, last_release_time = - 1, remaining_wcet = - 1\<rparr>"

definition mk_taskset :: "task_t \<Rightarrow> task_t \<Rightarrow> task_t \<Rightarrow> task_t \<Rightarrow> int \<Rightarrow> taskset_t" where
  "mk_taskset T1 T2 T3 T4 hp =
     \<lparr>tasks = (\<lambda>i. if i = 0 then T1 else if i = 1 then T2 else if i = 2 then T3 else T4),
      hyper_period = hp\<rparr>"

text \<open>A task set in the middle of a simulation, at time 1.\<close>

definition ex_running :: taskset_t where
  "ex_running =
     mk_taskset
       ((mk_task 1 4 4 0 2)\<lparr>last_release_time := 0, remaining_wcet := 0\<rparr>)
       ((mk_task 2 4 5 1 1)\<lparr>last_release_time := 0, remaining_wcet := 2\<rparr>)
       ((mk_task 1 4 1 2 3)\<lparr>last_release_time := 0, remaining_wcet := 1\<rparr>)
       ((mk_task 1 4 1 3 3)\<lparr>last_release_time := 0, remaining_wcet := 1\<rparr>)
       4"

section \<open>Priority selection\<close>

text \<open>
  Claim C4. For every time \<open>t\<close> and every task set whose phase 1 and phase 2 priorities
  are all non-negative, \<^verbatim>\<open>get_highest_prio_active_task\<close> returns no task exactly when no
  task is active, and it returns the task \<open>k\<close> exactly when \<open>k\<close> is active, no active task
  has a numerically lower effective priority, and every active task of a lower index has
  a strictly higher one (the lowest index wins ties). The effective priority is
  \<^verbatim>\<open>phase_1_prio\<close> while \<open>t - last_release_time < phase_change_point\<close> and
  \<^verbatim>\<open>phase_2_prio\<close> afterwards.
\<close>

theorem get_highest_prio_active_task_spec:
  assumes "\<forall>i<NUM_TASKS. 0 \<le> phase_1_prio (tasks ts i) \<and> 0 \<le> phase_2_prio (tasks ts i)"
  shows "(get_highest_prio_active_task ts t = None \<longleftrightarrow>
            (\<forall>i<NUM_TASKS. \<not> is_active (tasks ts i))) \<and>
         (\<forall>k. get_highest_prio_active_task ts t = Some k \<longleftrightarrow>
            k < NUM_TASKS \<and> is_active (tasks ts k) \<and>
            (\<forall>j<NUM_TASKS. is_active (tasks ts j) \<longrightarrow>
               get_priority (tasks ts k) t \<le> get_priority (tasks ts j) t) \<and>
            (\<forall>j<k. is_active (tasks ts j) \<longrightarrow>
               get_priority (tasks ts k) t < get_priority (tasks ts j) t)) \<and>
         (\<forall>i. get_priority (tasks ts i) t =
            (if t - last_release_time (tasks ts i) < phase_change_point (tasks ts i)
             then phase_1_prio (tasks ts i) else phase_2_prio (tasks ts i)))"
proof -
  have nn: "\<forall>j<NUM_TASKS. 0 \<le> get_priority (tasks ts j) t"
    using assms by (simp add: get_priority_nonneg)
  note inv = hp_inv_result [OF nn]
  let ?sel = "\<lambda>k. k < NUM_TASKS \<and> is_active (tasks ts k) \<and>
            (\<forall>j<NUM_TASKS. is_active (tasks ts j) \<longrightarrow>
               get_priority (tasks ts k) t \<le> get_priority (tasks ts j) t) \<and>
            (\<forall>j<k. is_active (tasks ts j) \<longrightarrow>
               get_priority (tasks ts k) t < get_priority (tasks ts j) t)"
  have uniq: "k = k'" if "?sel k" "?sel k'" for k k'
  proof (rule ccontr)
    assume "k \<noteq> k'"
    then consider "k < k'" | "k' < k" by linarith
    then show False
    proof cases
      case 1
      with that have "get_priority (tasks ts k') t < get_priority (tasks ts k) t" by blast
      moreover from that have "get_priority (tasks ts k) t \<le> get_priority (tasks ts k') t" by blast
      ultimately show False by simp
    next
      case 2
      with that have "get_priority (tasks ts k) t < get_priority (tasks ts k') t" by blast
      moreover from that have "get_priority (tasks ts k') t \<le> get_priority (tasks ts k) t" by blast
      ultimately show False by simp
    qed
  qed
  have none: "get_highest_prio_active_task ts t = None \<longleftrightarrow>
      (\<forall>i<NUM_TASKS. \<not> is_active (tasks ts i))"
    using inv by (auto simp: hp_inv_def split: option.splits)
  have some: "?sel k" if "get_highest_prio_active_task ts t = Some k" for k
    using inv that by (simp add: hp_inv_def)
  have conv: "get_highest_prio_active_task ts t = Some k" if "?sel k" for k
  proof (cases "get_highest_prio_active_task ts t")
    case None
    with none that show ?thesis by blast
  next
    case (Some k')
    from uniq [OF that some [OF Some]] Some show ?thesis by simp
  qed
  have iff: "get_highest_prio_active_task ts t = Some k \<longleftrightarrow> ?sel k" for k
    using some [of k] conv [of k] by (rule iffI)
  have prio: "get_priority (tasks ts i) t =
      (if t - last_release_time (tasks ts i) < phase_change_point (tasks ts i)
       then phase_1_prio (tasks ts i) else phase_2_prio (tasks ts i))" for i
    by (simp add: get_priority_def)
  from none iff prio show ?thesis by (intro conjI allI)
qed

text \<open>
  At time 1 of \<open>ex_running\<close> the tasks 1, 2 and 3 are active with the same effective
  priority 1: the task of index 1 is selected.
\<close>

theorem get_highest_prio_active_task_spec_witness:
  "get_highest_prio_active_task ex_running 1 = Some 1"
proof -
  have h: "\<forall>i<NUM_TASKS. 0 \<le> phase_1_prio (tasks ex_running i) \<and>
      0 \<le> phase_2_prio (tasks ex_running i)"
    by (simp add: ex_running_def mk_taskset_def mk_task_def)
  have "1 < NUM_TASKS \<and> is_active (tasks ex_running 1) \<and>
      (\<forall>j<NUM_TASKS. is_active (tasks ex_running j) \<longrightarrow>
         get_priority (tasks ex_running 1) 1 \<le> get_priority (tasks ex_running j) 1) \<and>
      (\<forall>j<1. is_active (tasks ex_running j) \<longrightarrow>
         get_priority (tasks ex_running 1) 1 < get_priority (tasks ex_running j) 1)"
    by (simp add: ex_running_def mk_taskset_def mk_task_def NUM_TASKS_def is_active_def
        get_priority_def)
  with get_highest_prio_active_task_spec [OF h, of 1] show ?thesis by blast
qed

section \<open>The run of a simulation\<close>

text \<open>
  The state of the simulation at the head of the loop at time \<open>n\<close>, as long as no
  deadline was missed before \<open>n\<close>.
\<close>

primrec state_at :: "taskset_t \<Rightarrow> nat \<Rightarrow> taskset_t" where
  "state_at ts 0 = reset_simulation_state ts"
| "state_at ts (Suc n) = tick (state_at ts n) (int n)"

text \<open>The parameters of a task that a simulation does not change.\<close>

definition static :: "task_t \<Rightarrow> int \<times> int \<times> int \<times> int \<times> int" where
  "static T = (wcet T, period T, phase_1_prio T, phase_2_prio T, phase_change_point T)"

lemma tasks_reset_simulation_state:
  "tasks (reset_simulation_state ts) j =
     (if j < NUM_TASKS
      then (tasks ts j)\<lparr>last_release_time := - 1, remaining_wcet := - 1\<rparr>
      else tasks ts j)"
  by (simp add: reset_simulation_state_def tasks_reset_loop)

lemma hyper_period_reset_simulation_state [simp]:
  "hyper_period (reset_simulation_state ts) = hyper_period ts"
  by (simp add: reset_simulation_state_def)

lemma hp_loop_active:
  "hp_loop ts t i highest_prio hp_task = Some k \<Longrightarrow>
     hp_task = Some k \<or> (i \<le> k \<and> k < NUM_TASKS \<and> is_active (tasks ts k))"
proof (induction ts t i highest_prio hp_task rule: hp_loop.induct)
  case (1 ts t i highest_prio hp_task)
  show ?case
  proof (cases "i < NUM_TASKS")
    case False
    with "1.prems" show ?thesis
      by (subst (asm) hp_loop.simps) simp
  next
    case lt: True
    show ?thesis
    proof (cases "is_active (tasks ts i)")
      case False
      with lt "1.prems" have "hp_loop ts t (i + 1) highest_prio hp_task = Some k"
        by (subst (asm) hp_loop.simps) simp
      from "1.IH"(3) [OF lt False this] show ?thesis by auto
    next
      case act: True
      define prio where "prio = get_priority (tasks ts i) t"
      show ?thesis
      proof (cases "prio < highest_prio \<or> highest_prio < 0")
        case True
        with lt act "1.prems" have "hp_loop ts t (i + 1) prio (Some i) = Some k"
          by (subst (asm) hp_loop.simps) (simp add: prio_def Let_def)
        from "1.IH"(1) [OF lt act prio_def True this] lt act show ?thesis by auto
      next
        case False
        with lt act "1.prems" have "hp_loop ts t (i + 1) highest_prio hp_task = Some k"
          by (subst (asm) hp_loop.simps) (simp add: prio_def Let_def)
        from "1.IH"(2) [OF lt act prio_def False this] show ?thesis by auto
      qed
    qed
  qed
qed

lemma get_highest_prio_active_task_active:
  "get_highest_prio_active_task ts t = Some k \<Longrightarrow> k < NUM_TASKS \<and> is_active (tasks ts k)"
  unfolding get_highest_prio_active_task_def by (drule hp_loop_active) simp

lemma tasks_execute:
  "tasks (execute ts t) j =
     (if get_highest_prio_active_task ts t = Some j
      then (tasks ts j)\<lparr>remaining_wcet := remaining_wcet (tasks ts j) - 1\<rparr>
      else tasks ts j)"
  by (auto simp: execute_def split: option.splits)

lemma static_release [simp]: "static (release T t) = static T"
  by (simp add: static_def release_def)

lemma static_tick [simp]: "static (tasks (tick ts t) j) = static (tasks ts j)"
  by (simp add: tick_def tasks_execute tasks_release_loop static_def release_def)

lemma static_reset [simp]: "static (tasks (reset_simulation_state ts) j) = static (tasks ts j)"
  by (simp add: tasks_reset_simulation_state static_def)

lemma static_state_at [simp]: "static (tasks (state_at ts n) j) = static (tasks ts j)"
  by (induction n) simp_all

lemma hyper_period_state_at [simp]: "hyper_period (state_at ts n) = hyper_period ts"
  by (induction n) simp_all

text \<open>The run of the loop from the state at \<open>n\<close>, up to the first miss.\<close>

lemma sim_loop_miss:
  assumes "n \<le> m" and "int m \<le> hyper_period ts"
    and "\<forall>k. n \<le> k \<and> k < m \<longrightarrow> miss_loop (state_at ts k) (int k) 0 = None"
    and "miss_loop (state_at ts m) (int m) 0 = Some i"
  shows "sim_loop (state_at ts n) (int n) = (state_at ts m, Some i)"
  using assms
proof (induction "m - n" arbitrary: n)
  case 0
  then have "n = m" by simp
  with 0 show ?case
    by (subst sim_loop.simps) simp
next
  case (Suc d)
  then have lt: "n < m" and none: "miss_loop (state_at ts n) (int n) 0 = None" by auto
  have "sim_loop (state_at ts (Suc n)) (int (Suc n)) = (state_at ts m, Some i)"
    using Suc by (intro Suc.hyps) auto
  moreover have "int n \<le> hyper_period ts" using lt Suc.prems by simp
  ultimately show ?case
    using none by (subst sim_loop.simps) (simp add: add.commute)
qed

lemma sim_loop_no_miss:
  assumes "\<forall>k. n \<le> k \<and> int k \<le> hyper_period ts \<longrightarrow>
      miss_loop (state_at ts k) (int k) 0 = None"
  shows "snd (sim_loop (state_at ts n) (int n)) = None"
  using assms
proof (induction "nat (hyper_period ts + 1 - int n)" arbitrary: n)
  case 0
  then have "\<not> int n \<le> hyper_period ts" by simp
  then show ?case
    by (subst sim_loop.simps) simp
next
  case (Suc d)
  then have le: "int n \<le> hyper_period ts" by simp
  with Suc.prems have none: "miss_loop (state_at ts n) (int n) 0 = None" by simp
  have "snd (sim_loop (state_at ts (Suc n)) (int (Suc n))) = None"
    using Suc by (intro Suc.hyps) auto
  then show ?case
    using none le by (subst sim_loop.simps) (simp add: add.commute)
qed

lemma simulate_sas_state_at: "simulate_sas ts = sim_loop (state_at ts 0) (int 0)"
  by (simp add: simulate_sas_def)

text \<open>The first time at which a task misses its deadline.\<close>

definition misses_at :: "taskset_t \<Rightarrow> nat \<Rightarrow> bool" where
  "misses_at ts n = (\<exists>i<NUM_TASKS. has_missed_deadline (tasks (state_at ts n) i) (int n))"

lemma miss_loop_0_None: "miss_loop (state_at ts n) (int n) 0 = None \<longleftrightarrow> \<not> misses_at ts n"
  by (auto simp: miss_loop_None misses_at_def)

lemma simulate_sas_Some:
  "snd (simulate_sas ts) = Some k \<longleftrightarrow>
     (\<exists>n. int n \<le> hyper_period ts \<and> (\<forall>m<n. \<not> misses_at ts m) \<and>
          miss_loop (state_at ts n) (int n) 0 = Some k)"
proof
  assume r: "snd (simulate_sas ts) = Some k"
  have ex: "\<exists>n. int n \<le> hyper_period ts \<and> misses_at ts n"
  proof (rule ccontr)
    assume "\<not> ?thesis"
    then have "\<forall>k. 0 \<le> k \<and> int k \<le> hyper_period ts \<longrightarrow>
        miss_loop (state_at ts k) (int k) 0 = None"
      by (simp add: miss_loop_0_None)
    from sim_loop_no_miss [OF this] r show False
      by (simp add: simulate_sas_state_at)
  qed
  define n where "n = (LEAST n. int n \<le> hyper_period ts \<and> misses_at ts n)"
  from ex have n: "int n \<le> hyper_period ts \<and> misses_at ts n"
    unfolding n_def by (rule LeastI_ex)
  have least: "\<not> misses_at ts m" if "m < n" for m
  proof
    assume "misses_at ts m"
    moreover from that n have "int m \<le> hyper_period ts" by simp
    ultimately have "n \<le> m" unfolding n_def by (intro Least_le) simp
    with that show False by simp
  qed
  from n obtain i where i: "miss_loop (state_at ts n) (int n) 0 = Some i"
    using miss_loop_0_None [of ts n] by (cases "miss_loop (state_at ts n) (int n) 0") auto
  have "sim_loop (state_at ts 0) (int 0) = (state_at ts n, Some i)"
    using n least i by (intro sim_loop_miss) (auto simp: miss_loop_0_None)
  with r have "i = k" by (simp add: simulate_sas_state_at)
  with n least i show "\<exists>n. int n \<le> hyper_period ts \<and> (\<forall>m<n. \<not> misses_at ts m) \<and>
          miss_loop (state_at ts n) (int n) 0 = Some k" by blast
next
  assume "\<exists>n. int n \<le> hyper_period ts \<and> (\<forall>m<n. \<not> misses_at ts m) \<and>
          miss_loop (state_at ts n) (int n) 0 = Some k"
  then obtain n where n: "int n \<le> hyper_period ts" "\<forall>m<n. \<not> misses_at ts m"
    "miss_loop (state_at ts n) (int n) 0 = Some k" by blast
  have "sim_loop (state_at ts 0) (int 0) = (state_at ts n, Some k)"
    using n by (intro sim_loop_miss) (auto simp: miss_loop_0_None)
  then show "snd (simulate_sas ts) = Some k"
    by (simp add: simulate_sas_state_at)
qed

lemma simulate_sas_None:
  "snd (simulate_sas ts) = None \<longleftrightarrow> (\<forall>n. int n \<le> hyper_period ts \<longrightarrow> \<not> misses_at ts n)"
proof
  assume r: "snd (simulate_sas ts) = None"
  show "\<forall>n. int n \<le> hyper_period ts \<longrightarrow> \<not> misses_at ts n"
  proof (rule ccontr)
    assume "\<not> ?thesis"
    then have ex: "\<exists>n. int n \<le> hyper_period ts \<and> misses_at ts n" by blast
    define n where "n = (LEAST n. int n \<le> hyper_period ts \<and> misses_at ts n)"
    from ex have n: "int n \<le> hyper_period ts \<and> misses_at ts n"
      unfolding n_def by (rule LeastI_ex)
    have least: "\<not> misses_at ts m" if "m < n" for m
    proof
      assume "misses_at ts m"
      moreover from that n have "int m \<le> hyper_period ts" by simp
      ultimately have "n \<le> m" unfolding n_def by (intro Least_le) simp
      with that show False by simp
    qed
    from n obtain i where i: "miss_loop (state_at ts n) (int n) 0 = Some i"
      using miss_loop_0_None [of ts n] by (cases "miss_loop (state_at ts n) (int n) 0") auto
    have "sim_loop (state_at ts 0) (int 0) = (state_at ts n, Some i)"
      using n least i by (intro sim_loop_miss) (auto simp: miss_loop_0_None)
    with r show False by (simp add: simulate_sas_state_at)
  qed
next
  assume "\<forall>n. int n \<le> hyper_period ts \<longrightarrow> \<not> misses_at ts n"
  then have "\<forall>k. 0 \<le> k \<and> int k \<le> hyper_period ts \<longrightarrow>
      miss_loop (state_at ts k) (int k) 0 = None"
    by (simp add: miss_loop_0_None)
  from sim_loop_no_miss [OF this] show "snd (simulate_sas ts) = None"
    by (simp add: simulate_sas_state_at)
qed

text \<open>
  Four tasks that overload the processor: the task of index 0 needs two time units in
  every period of one time unit.
\<close>

definition ex_overload :: taskset_t where
  "ex_overload =
     mk_taskset (mk_task 2 1 4 0 0) (mk_task 1 2 5 1 0) (mk_task 1 2 6 2 0) (mk_task 1 2 7 3 0) 2"

text \<open>
  Claim C3. \<^verbatim>\<open>simulate_sas\<close> returns the task \<open>k\<close> exactly when there is a time \<open>n\<close> in
  \<open>[0, hyper_period]\<close> such that no task misses its deadline at any earlier time, the
  task \<open>k\<close> misses its deadline at \<open>n\<close>, and no task of a lower index does; it returns
  \<^verbatim>\<open>NULL\<close> exactly when no task misses its deadline at any time up to and including
  \<open>hyper_period\<close>. A task misses its deadline at \<open>t\<close> when it has remaining execution
  and can release a job at \<open>t\<close>: it was never released, or
  \<open>t - last_release_time \<ge> period\<close>.
\<close>

theorem simulate_sas_first_miss:
  "(snd (simulate_sas ts) = Some k \<longleftrightarrow>
      (\<exists>n. int n \<le> hyper_period ts \<and>
         (\<forall>m<n. \<forall>i<NUM_TASKS. \<not> has_missed_deadline (tasks (state_at ts m) i) (int m)) \<and>
         k < NUM_TASKS \<and> has_missed_deadline (tasks (state_at ts n) k) (int n) \<and>
         (\<forall>j<k. \<not> has_missed_deadline (tasks (state_at ts n) j) (int n)))) \<and>
   (snd (simulate_sas ts) = None \<longleftrightarrow>
      (\<forall>n. int n \<le> hyper_period ts \<longrightarrow>
         (\<forall>i<NUM_TASKS. \<not> has_missed_deadline (tasks (state_at ts n) i) (int n)))) \<and>
   (\<forall>T t. has_missed_deadline T t \<longleftrightarrow>
      remaining_wcet T > 0 \<and> (last_release_time T < 0 \<or> t - last_release_time T \<ge> period T))"
proof -
  have 1: "snd (simulate_sas ts) = Some k \<longleftrightarrow>
      (\<exists>n. int n \<le> hyper_period ts \<and>
         (\<forall>m<n. \<forall>i<NUM_TASKS. \<not> has_missed_deadline (tasks (state_at ts m) i) (int m)) \<and>
         k < NUM_TASKS \<and> has_missed_deadline (tasks (state_at ts n) k) (int n) \<and>
         (\<forall>j<k. \<not> has_missed_deadline (tasks (state_at ts n) j) (int n)))"
    unfolding simulate_sas_Some misses_at_def miss_loop_Some by simp
  have 2: "snd (simulate_sas ts) = None \<longleftrightarrow>
      (\<forall>n. int n \<le> hyper_period ts \<longrightarrow>
         (\<forall>i<NUM_TASKS. \<not> has_missed_deadline (tasks (state_at ts n) i) (int n)))"
    unfolding simulate_sas_None misses_at_def by simp
  have 3: "\<forall>T t. has_missed_deadline T t \<longleftrightarrow>
      remaining_wcet T > 0 \<and> (last_release_time T < 0 \<or> t - last_release_time T \<ge> period T)"
    by (simp add: has_missed_deadline_def is_active_def can_release_def)
  from 1 2 3 show ?thesis by (intro conjI)
qed

text \<open>In \<open>ex_overload\<close> the task of index 0 misses its deadline at time 1.\<close>

theorem simulate_sas_first_miss_witness:
  "snd (simulate_sas ex_overload) = Some 0"
proof -
  have a: "\<forall>m<1. \<forall>i<NUM_TASKS.
      \<not> has_missed_deadline (tasks (state_at ex_overload m) i) (int m)"
    by (simp add: tasks_reset_simulation_state has_missed_deadline_def is_active_def)
  have b: "has_missed_deadline (tasks (state_at ex_overload 1) 0) (int 1)"
    by code_simp
  have c: "int 1 \<le> hyper_period ex_overload"
    by (simp add: ex_overload_def mk_taskset_def)
  have "\<exists>n. int n \<le> hyper_period ex_overload \<and>
         (\<forall>m<n. \<forall>i<NUM_TASKS.
            \<not> has_missed_deadline (tasks (state_at ex_overload m) i) (int m)) \<and>
         0 < NUM_TASKS \<and> has_missed_deadline (tasks (state_at ex_overload n) 0) (int n) \<and>
         (\<forall>j<0. \<not> has_missed_deadline (tasks (state_at ex_overload n) j) (int n))"
    using a b c by (intro exI [of _ 1]) (simp add: NUM_TASKS_def)
  with simulate_sas_first_miss [of ex_overload 0] show ?thesis by blast
qed

text \<open>
  The task set of \<^verbatim>\<open>verify_counterexample_3\<close> with its RM+RM priorities and the phase
  change points 5, 3, 25 and 35; its hyper-period is 187220.
\<close>

definition ex_fdms :: taskset_t where
  "ex_fdms =
     mk_taskset (mk_task 6 11 4 0 5) (mk_task 6 20 5 1 3) (mk_task 4 46 6 2 25)
       (mk_task 5 74 7 3 35) 187220"

text \<open>The task of index 2 has no work.\<close>

definition ex_zero :: taskset_t where
  "ex_zero =
     mk_taskset (mk_task 1 2 4 0 0) (mk_task 1 4 5 1 0) (mk_task 0 4 6 2 0) (mk_task 1 4 7 3 0) 4"

lemma remaining_wcet_release_loop:
  "j < NUM_TASKS \<Longrightarrow>
   remaining_wcet (tasks (release_loop ts t 0) j) =
     (if can_release (tasks ts j) t then wcet (tasks ts j) else remaining_wcet (tasks ts j))"
  by (simp add: tasks_release_loop release_def)

lemma remaining_wcet_execute:
  "remaining_wcet (tasks (execute ts t) j) =
     (if get_highest_prio_active_task ts t = Some j
      then remaining_wcet (tasks ts j) - 1 else remaining_wcet (tasks ts j))"
  by (simp add: tasks_execute)

lemma remaining_wcet_execute_nonneg:
  "0 \<le> remaining_wcet (tasks ts j) \<Longrightarrow> 0 \<le> remaining_wcet (tasks (execute ts t) j)"
  using get_highest_prio_active_task_active [of ts t j]
  by (auto simp: remaining_wcet_execute is_active_def)

lemma wcet_state_at [simp]: "wcet (tasks (state_at ts n) j) = wcet (tasks ts j)"
  using static_state_at [of ts n j] by (simp add: static_def)

lemma wcet_reset_simulation_state [simp]:
  "wcet (tasks (reset_simulation_state ts) j) = wcet (tasks ts j)"
  using static_reset [of ts j] by (simp add: static_def)

lemma can_release_reset:
  "j < NUM_TASKS \<Longrightarrow> can_release (tasks (reset_simulation_state ts) j) t"
  by (simp add: tasks_reset_simulation_state can_release_def)

lemma remaining_wcet_reset:
  "j < NUM_TASKS \<Longrightarrow> remaining_wcet (tasks (reset_simulation_state ts) j) = - 1"
  by (simp add: tasks_reset_simulation_state)

lemma remaining_wcet_nonneg:
  assumes "j < NUM_TASKS" and "0 \<le> wcet (tasks ts j)"
  shows "0 \<le> remaining_wcet (tasks (release_loop (state_at ts n) (int n) 0) j) \<and>
         0 \<le> remaining_wcet (tasks (state_at ts (Suc n)) j)"
proof (induction n)
  case 0
  have "0 \<le> remaining_wcet (tasks (release_loop (state_at ts 0) (int 0) 0) j)"
    using assms by (simp add: remaining_wcet_release_loop can_release_reset)
  then show ?case
    by (simp add: tick_def remaining_wcet_execute_nonneg)
next
  case (Suc n)
  have "0 \<le> remaining_wcet (tasks (release_loop (state_at ts (Suc n)) (int (Suc n)) 0) j)"
    using assms Suc by (simp add: remaining_wcet_release_loop del: state_at.simps)
  then show ?case
    using remaining_wcet_execute_nonneg [of "release_loop (state_at ts (Suc n)) (int (Suc n)) 0" j]
    by (simp add: tick_def)
qed

section \<open>The remaining execution\<close>

text \<open>
  Claim C10 says that the remaining execution of every task is at least 0 throughout
  every run of \<^verbatim>\<open>simulate_sas\<close>. \<^verbatim>\<open>reset_simulation_state\<close> sets it to -1, so at the
  head of the loop at time 0 it is negative, for every task set.
\<close>

theorem remaining_wcet_never_negative_counterexample:
  "\<not> 0 \<le> remaining_wcet (tasks (state_at ex_fdms 0) 0)"
  by (simp add: remaining_wcet_reset NUM_TASKS_def)

text \<open>
  Claim C10, amended. Throughout every run of \<^verbatim>\<open>simulate_sas\<close> on a task set whose
  \<^verbatim>\<open>wcet\<close> are not negative, the remaining execution of every task is -1 at the head of
  the loop at time 0 (the task was never released), and at least 0 from the releases at
  time 0 on: after the releases of every time \<open>n\<close> and at the head of the loop at every
  time \<open>n + 1\<close>. A task is active exactly when its remaining execution is greater than 0.
\<close>

theorem remaining_wcet_after_first_release:
  assumes "\<forall>i<NUM_TASKS. 0 \<le> wcet (tasks ts i)"
  shows "(\<forall>i<NUM_TASKS. remaining_wcet (tasks (state_at ts 0) i) = - 1) \<and>
         (\<forall>n. \<forall>i<NUM_TASKS.
            0 \<le> remaining_wcet (tasks (release_loop (state_at ts n) (int n) 0) i) \<and>
            0 \<le> remaining_wcet (tasks (state_at ts (Suc n)) i)) \<and>
         (\<forall>T. is_active T \<longleftrightarrow> 0 < remaining_wcet T)"
  using assms remaining_wcet_nonneg [of _ ts]
  by (simp add: remaining_wcet_reset is_active_def)

theorem remaining_wcet_after_first_release_witness:
  "remaining_wcet (tasks (state_at ex_fdms 0) 1) = - 1 \<and>
   0 \<le> remaining_wcet (tasks (release_loop (state_at ex_fdms 0) (int 0) 0) 1) \<and>
   0 \<le> remaining_wcet (tasks (state_at ex_fdms (Suc 0)) 1)"
proof -
  have h: "\<forall>i<NUM_TASKS. 0 \<le> wcet (tasks ex_fdms i)"
    by (simp add: ex_fdms_def mk_taskset_def mk_task_def)
  have "(1::nat) < NUM_TASKS" by (simp add: NUM_TASKS_def)
  with remaining_wcet_after_first_release [OF h] show ?thesis by blast
qed

lemma remaining_wcet_zero_wcet:
  assumes "k < NUM_TASKS" and "wcet (tasks ts k) = 0"
  shows "remaining_wcet (tasks (state_at ts n) k) \<le> 0 \<and>
         remaining_wcet (tasks (release_loop (state_at ts n) (int n) 0) k) \<le> 0"
proof (induction n)
  case 0
  show ?case
    using assms by (simp add: remaining_wcet_release_loop can_release_reset remaining_wcet_reset)
next
  case (Suc n)
  let ?r = "release_loop (state_at ts n) (int n) 0"
  have "remaining_wcet (tasks (execute ?r (int n)) k) \<le> 0"
    using Suc by (simp add: remaining_wcet_execute)
  then have 1: "remaining_wcet (tasks (state_at ts (Suc n)) k) \<le> 0"
    by (simp add: tick_def)
  then have "remaining_wcet (tasks (release_loop (state_at ts (Suc n)) (int (Suc n)) 0) k) \<le> 0"
    using assms by (simp add: remaining_wcet_release_loop del: state_at.simps)
  with 1 show ?case by simp
qed

text \<open>
  Claim C9. Nothing rejects a task with \<^verbatim>\<open>wcet = 0\<close>: \<^verbatim>\<open>simulate_sas\<close> is defined on
  every task set. Such a task is never active, neither at the head of the loop nor after
  the releases of any time, for every setting of the priorities and of the phase change
  points, and \<^verbatim>\<open>simulate_sas\<close> never returns it as the task that missed its deadline.
\<close>

theorem zero_wcet_never_active:
  assumes "k < NUM_TASKS" and "wcet (tasks ts k) = 0"
  shows "(\<forall>n. \<not> is_active (tasks (state_at ts n) k) \<and>
              \<not> is_active (tasks (release_loop (state_at ts n) (int n) 0) k)) \<and>
         snd (simulate_sas ts) \<noteq> Some k"
proof -
  have na: "\<not> is_active (tasks (state_at ts n) k) \<and>
      \<not> is_active (tasks (release_loop (state_at ts n) (int n) 0) k)" for n
    using remaining_wcet_zero_wcet [OF assms, of n] by (simp add: is_active_def)
  have "snd (simulate_sas ts) \<noteq> Some k"
  proof
    assume "snd (simulate_sas ts) = Some k"
    then obtain n where "miss_loop (state_at ts n) (int n) 0 = Some k"
      unfolding simulate_sas_Some by blast
    then have "is_active (tasks (state_at ts n) k)"
      by (simp add: miss_loop_Some has_missed_deadline_def)
    with na show False by blast
  qed
  with na show ?thesis by blast
qed

theorem zero_wcet_never_active_witness:
  "\<not> is_active (tasks (state_at ex_zero 3) 2) \<and>
   \<not> is_active (tasks (release_loop (state_at ex_zero 3) (int 3) 0) 2) \<and>
   snd (simulate_sas ex_zero) \<noteq> Some 2"
proof -
  have 1: "2 < NUM_TASKS" by (simp add: NUM_TASKS_def)
  have 2: "wcet (tasks ex_zero 2) = 0"
    by (simp add: ex_zero_def mk_taskset_def mk_task_def)
  from zero_wcet_never_active [OF 1 2] show ?thesis by blast
qed

lemma static_sim_loop [simp]: "static (tasks (fst (sim_loop ts t)) j) = static (tasks ts j)"
proof (induction ts t rule: sim_loop.induct)
  case (1 ts t)
  show ?case
    using 1 by (subst sim_loop.simps) (simp split: option.splits)
qed

lemma static_simulate_sas [simp]:
  "static (tasks (fst (simulate_sas ts)) j) = static (tasks ts j)"
  by (simp add: simulate_sas_def)

lemma hyper_period_sim_loop [simp]: "hyper_period (fst (sim_loop ts t)) = hyper_period ts"
proof (induction ts t rule: sim_loop.induct)
  case (1 ts t)
  show ?case
    using 1 by (subst sim_loop.simps) (simp split: option.splits)
qed

lemma hyper_period_simulate_sas [simp]:
  "hyper_period (fst (simulate_sas ts)) = hyper_period ts"
  by (simp add: simulate_sas_def)

lemma phase_change_point_simulate_sas [simp]:
  "phase_change_point (tasks (fst (simulate_sas ts)) j) = phase_change_point (tasks ts j)"
  using static_simulate_sas [of ts j] by (simp add: static_def)

lemma period_simulate_sas [simp]:
  "period (tasks (fst (simulate_sas ts)) j) = period (tasks ts j)"
  using static_simulate_sas [of ts j] by (simp add: static_def)

lemma simulate_sas_index: "snd (simulate_sas ts) = Some k \<Longrightarrow> k < NUM_TASKS"
  unfolding simulate_sas_Some miss_loop_Some by blast

section \<open>The FDMS policy\<close>

text \<open>The sum of the phase change points, the bound of the loop of the FDMS policy.\<close>

definition pcp_sum :: "taskset_t \<Rightarrow> nat" where
  "pcp_sum ts = (\<Sum>i<NUM_TASKS. nat (phase_change_point (tasks ts i)))"

lemma pcp_sum_decrease:
  assumes "k < NUM_TASKS" and "0 < phase_change_point (tasks ts k)"
  shows "Suc (pcp_sum (upd_task ts k (\<lambda>T. T\<lparr>phase_change_point := phase_change_point T - 1\<rparr>)))
           = pcp_sum ts"
proof -
  let ?ts = "upd_task ts k (\<lambda>T. T\<lparr>phase_change_point := phase_change_point T - 1\<rparr>)"
  have k: "k \<in> {..<NUM_TASKS}" using assms by simp
  have "pcp_sum ?ts = nat (phase_change_point (tasks ?ts k)) +
      (\<Sum>i\<in>{..<NUM_TASKS} - {k}. nat (phase_change_point (tasks ?ts i)))"
    unfolding pcp_sum_def by (rule sum.remove [OF _ k]) simp
  also have "(\<Sum>i\<in>{..<NUM_TASKS} - {k}. nat (phase_change_point (tasks ?ts i))) =
      (\<Sum>i\<in>{..<NUM_TASKS} - {k}. nat (phase_change_point (tasks ts i)))"
    by (rule sum.cong) auto
  finally have "Suc (pcp_sum ?ts) = nat (phase_change_point (tasks ts k)) +
      (\<Sum>i\<in>{..<NUM_TASKS} - {k}. nat (phase_change_point (tasks ts i)))"
    using assms by simp
  also have "\<dots> = pcp_sum ts"
    unfolding pcp_sum_def by (rule sum.remove [OF _ k, symmetric]) simp
  finally show ?thesis .
qed

lemma pcp_sum_simulate_sas [simp]: "pcp_sum (fst (simulate_sas ts)) = pcp_sum ts"
  by (simp add: pcp_sum_def)

text \<open>
  The loop of \<^verbatim>\<open>test_fdms_phase_change_points\<close>. The second argument counts the calls
  of \<^verbatim>\<open>simulate_sas\<close>; it is not a variable of the program.
\<close>

function fdms_loop :: "taskset_t \<Rightarrow> nat \<Rightarrow> int \<times> taskset_t \<times> nat" where
  "fdms_loop ts sims =
     (case simulate_sas ts of
        (ts', None) \<Rightarrow> (1, ts', sims + 1)
      | (ts', Some miss_task) \<Rightarrow>
          if phase_change_point (tasks ts' miss_task) > 0
          then fdms_loop
                 (upd_task ts' miss_task
                    (\<lambda>T. T\<lparr>phase_change_point := phase_change_point T - 1\<rparr>))
                 (sims + 1)
          else (0, ts', sims + 1))"
  by pat_completeness auto
termination
proof (relation "measure (\<lambda>(ts, sims). pcp_sum ts)")
  show "wf (measure (\<lambda>(ts, sims). pcp_sum ts))" by simp
next
  fix ts :: taskset_t and sims :: nat and x ts' y k
  assume sim: "(ts', y) = simulate_sas ts" "y = Some k"
    and pos: "0 < phase_change_point (tasks ts' k)"
  from sim have "snd (simulate_sas ts) = Some k" by (metis snd_conv)
  then have k: "k < NUM_TASKS" by (rule simulate_sas_index)
  from sim have ts': "ts' = fst (simulate_sas ts)" by (metis fst_conv)
  from pcp_sum_decrease [OF k pos] ts'
  show "((upd_task ts' k (\<lambda>T. T\<lparr>phase_change_point := phase_change_point T - 1\<rparr>), sims + 1),
         ts, sims) \<in> measure (\<lambda>(ts, sims). pcp_sum ts)"
    by simp
qed

declare fdms_loop.simps [simp del]

definition fdms_init :: "taskset_t \<Rightarrow> taskset_t" where
  "fdms_init ts =
     (let ts = upd_task ts 0 (\<lambda>T. T\<lparr>phase_change_point := period T\<rparr>);
          ts = upd_task ts 1 (\<lambda>T. T\<lparr>phase_change_point := period T\<rparr>);
          ts = upd_task ts 2 (\<lambda>T. T\<lparr>phase_change_point := period T\<rparr>);
          ts = upd_task ts 3 (\<lambda>T. T\<lparr>phase_change_point := period T\<rparr>)
      in ts)"

definition test_fdms_phase_change_points :: "taskset_t \<Rightarrow> int \<times> taskset_t" where
  "test_fdms_phase_change_points ts =
     (case fdms_loop (fdms_init ts) 0 of (r, ts', sims) \<Rightarrow> (r, ts'))"

text \<open>The number of simulations of a call of \<^verbatim>\<open>test_fdms_phase_change_points\<close>.\<close>

definition fdms_simulations :: "taskset_t \<Rightarrow> nat" where
  "fdms_simulations ts = (case fdms_loop (fdms_init ts) 0 of (r, ts', sims) \<Rightarrow> sims)"

lemma fdms_loop_sims:
  "fdms_loop ts s = (r, ts', n) \<Longrightarrow> s < n \<and> n \<le> s + 1 + pcp_sum ts \<and> (r = 0 \<or> r = 1)"
proof (induction ts s arbitrary: r ts' n rule: fdms_loop.induct)
  case (1 ts sims)
  obtain ts1 y where sim: "simulate_sas ts = (ts1, y)" by (cases "simulate_sas ts")
  show ?case
  proof (cases y)
    case None
    with sim "1.prems" show ?thesis
      by (subst (asm) fdms_loop.simps) auto
  next
    case (Some k)
    show ?thesis
    proof (cases "0 < phase_change_point (tasks ts1 k)")
      case False
      with sim Some "1.prems" show ?thesis
        by (subst (asm) fdms_loop.simps) auto
    next
      case True
      let ?ts = "upd_task ts1 k (\<lambda>T. T\<lparr>phase_change_point := phase_change_point T - 1\<rparr>)"
      from sim Some True "1.prems" have rec: "fdms_loop ?ts (sims + 1) = (r, ts', n)"
        by (subst (asm) fdms_loop.simps) simp
      from sim Some have "snd (simulate_sas ts) = Some k" by simp
      then have k: "k < NUM_TASKS" by (rule simulate_sas_index)
      from sim have ts1: "ts1 = fst (simulate_sas ts)" by simp
      have "Suc (pcp_sum ?ts) = pcp_sum ts"
        using pcp_sum_decrease [OF k True] ts1 by simp
      with "1.IH" [OF sim [symmetric] Some True rec] show ?thesis by auto
    qed
  qed
qed

lemma pcp_sum_fdms_init:
  "pcp_sum (fdms_init ts) = (\<Sum>i<NUM_TASKS. nat (period (tasks ts i)))"
  by (simp add: pcp_sum_def fdms_init_def NUM_TASKS_def Let_def eval_nat_numeral)

lemma fdms_loop_step:
  "(\<exists>r ts'. fdms_loop ts s = (r, ts', s + 1)) \<or>
   (\<exists>k ts'. k < NUM_TASKS \<and> simulate_sas ts = (ts', Some k) \<and>
      0 < phase_change_point (tasks ts' k) \<and>
      fdms_loop ts s =
        fdms_loop
          (upd_task ts' k (\<lambda>T. T\<lparr>phase_change_point := phase_change_point T - 1\<rparr>)) (s + 1) \<and>
      Suc (pcp_sum
          (upd_task ts' k (\<lambda>T. T\<lparr>phase_change_point := phase_change_point T - 1\<rparr>))) =
        pcp_sum ts)"
proof -
  obtain ts1 y where sim: "simulate_sas ts = (ts1, y)" by (cases "simulate_sas ts")
  show ?thesis
  proof (cases y)
    case None
    with sim show ?thesis
      by (subst fdms_loop.simps) simp
  next
    case (Some k)
    show ?thesis
    proof (cases "0 < phase_change_point (tasks ts1 k)")
      case False
      with sim Some show ?thesis
        by (subst fdms_loop.simps) simp
    next
      case True
      from sim Some have "snd (simulate_sas ts) = Some k" by simp
      then have k: "k < NUM_TASKS" by (rule simulate_sas_index)
      from sim have ts1: "ts1 = fst (simulate_sas ts)" by simp
      have dec: "Suc (pcp_sum
          (upd_task ts1 k (\<lambda>T. T\<lparr>phase_change_point := phase_change_point T - 1\<rparr>))) =
          pcp_sum ts"
        using pcp_sum_decrease [OF k True] ts1 by simp
      have "fdms_loop ts s =
        fdms_loop
          (upd_task ts1 k (\<lambda>T. T\<lparr>phase_change_point := phase_change_point T - 1\<rparr>)) (s + 1)"
        using sim Some True by (subst fdms_loop.simps) simp
      with k sim Some True dec show ?thesis by blast
    qed
  qed
qed

text \<open>
  Claim C5. \<^verbatim>\<open>test_fdms_phase_change_points\<close> terminates on every task set (the loop is
  a total function: the sum of the phase change points decreases). Starting from every
  phase change point set to the period of its task, every pass through the loop either
  returns a result after one more simulation, or decreases the phase change point of one
  task by one and goes on. With positive periods the loop ends after at most 1 + the sum
  of the periods simulations, and it returns 0 or 1.
\<close>

theorem test_fdms_phase_change_points_terminates:
  assumes "\<forall>i<NUM_TASKS. 0 < period (tasks ts i)"
  shows "int (fdms_simulations ts) \<le> 1 + (\<Sum>i<NUM_TASKS. period (tasks ts i)) \<and>
         (fst (test_fdms_phase_change_points ts) = 0 \<or>
          fst (test_fdms_phase_change_points ts) = 1) \<and>
         pcp_sum (fdms_init ts) = nat (\<Sum>i<NUM_TASKS. period (tasks ts i)) \<and>
         (\<forall>ts s.
            (\<exists>r ts'. fdms_loop ts s = (r, ts', s + 1)) \<or>
            (\<exists>k ts'. k < NUM_TASKS \<and> simulate_sas ts = (ts', Some k) \<and>
               0 < phase_change_point (tasks ts' k) \<and>
               fdms_loop ts s =
                 fdms_loop
                   (upd_task ts' k (\<lambda>T. T\<lparr>phase_change_point := phase_change_point T - 1\<rparr>))
                   (s + 1) \<and>
               Suc (pcp_sum
                   (upd_task ts' k
                      (\<lambda>T. T\<lparr>phase_change_point := phase_change_point T - 1\<rparr>))) =
                 pcp_sum ts))"
proof -
  obtain r ts' n where run: "fdms_loop (fdms_init ts) 0 = (r, ts', n)"
    by (cases "fdms_loop (fdms_init ts) 0")
  note b = fdms_loop_sims [OF run]
  have "int (\<Sum>i<NUM_TASKS. nat (period (tasks ts i))) = (\<Sum>i<NUM_TASKS. period (tasks ts i))"
    unfolding of_nat_sum using assms by (intro sum.cong) auto
  then have "(\<Sum>i<NUM_TASKS. nat (period (tasks ts i))) = nat (\<Sum>i<NUM_TASKS. period (tasks ts i))"
    by linarith
  then have sum: "pcp_sum (fdms_init ts) = nat (\<Sum>i<NUM_TASKS. period (tasks ts i))"
    by (simp add: pcp_sum_fdms_init)
  have pos: "0 \<le> (\<Sum>i<NUM_TASKS. period (tasks ts i))"
    using assms by (intro sum_nonneg) auto
  have 1: "int (fdms_simulations ts) \<le> 1 + (\<Sum>i<NUM_TASKS. period (tasks ts i))"
  proof -
    from b sum have "n \<le> Suc (nat (\<Sum>i<NUM_TASKS. period (tasks ts i)))" by simp
    with pos have "int n \<le> 1 + (\<Sum>i<NUM_TASKS. period (tasks ts i))" by linarith
    then show ?thesis by (simp add: fdms_simulations_def run)
  qed
  have 2: "fst (test_fdms_phase_change_points ts) = 0 \<or>
      fst (test_fdms_phase_change_points ts) = 1"
    using b by (simp add: test_fdms_phase_change_points_def run)
  from 1 2 sum fdms_loop_step show ?thesis by blast
qed

theorem test_fdms_phase_change_points_terminates_witness:
  "int (fdms_simulations ex_overload) \<le> 1 + (\<Sum>i<NUM_TASKS. period (tasks ex_overload i))"
proof -
  have h: "\<forall>i<NUM_TASKS. 0 < period (tasks ex_overload i)"
    by (simp add: ex_overload_def mk_taskset_def mk_task_def)
  from test_fdms_phase_change_points_terminates [OF h] show ?thesis by blast
qed

section \<open>The result of a simulation depends on the configuration only\<close>

text \<open>
  Two task sets agree when their four tasks are equal and their hyper-periods are equal.
  The functions of the simulation only read the four tasks and the hyper-period.
\<close>

definition agree :: "taskset_t \<Rightarrow> taskset_t \<Rightarrow> bool" where
  "agree ts ts' =
     ((\<forall>i<NUM_TASKS. tasks ts i = tasks ts' i) \<and> hyper_period ts = hyper_period ts')"

text \<open>Two task sets have the same configuration when only the simulation state differs.\<close>

definition same_config :: "taskset_t \<Rightarrow> taskset_t \<Rightarrow> bool" where
  "same_config ts ts' =
     ((\<forall>i<NUM_TASKS. static (tasks ts i) = static (tasks ts' i)) \<and>
      hyper_period ts = hyper_period ts')"

lemma agree_refl [simp]: "agree ts ts"
  by (simp add: agree_def)

lemma agree_reset:
  assumes "same_config ts ts'"
  shows "agree (reset_simulation_state ts) (reset_simulation_state ts')"
proof -
  have "(tasks ts i)\<lparr>last_release_time := - 1, remaining_wcet := - 1\<rparr> =
        (tasks ts' i)\<lparr>last_release_time := - 1, remaining_wcet := - 1\<rparr>"
    if "i < NUM_TASKS" for i
  proof -
    from assms that have "static (tasks ts i) = static (tasks ts' i)"
      by (simp add: same_config_def)
    then show ?thesis
      by (cases "tasks ts i"; cases "tasks ts' i") (simp add: static_def)
  qed
  with assms show ?thesis
    by (simp add: agree_def same_config_def tasks_reset_simulation_state)
qed

lemma agree_miss_loop:
  assumes "agree ts ts'"
  shows "miss_loop ts t 0 = miss_loop ts' t 0"
proof (cases "miss_loop ts t 0")
  case None
  then have "miss_loop ts' t 0 = None"
    using assms unfolding miss_loop_None agree_def by simp
  with None show ?thesis by simp
next
  case (Some k)
  then have "miss_loop ts' t 0 = Some k"
    using assms unfolding miss_loop_Some agree_def by auto
  with Some show ?thesis by simp
qed

lemma agree_release_loop:
  assumes "agree ts ts'"
  shows "agree (release_loop ts t 0) (release_loop ts' t 0)"
  using assms by (simp add: agree_def tasks_release_loop)

lemma agree_hp_loop:
  "agree ts ts' \<Longrightarrow>
   hp_loop ts t i highest_prio hp_task = hp_loop ts' t i highest_prio hp_task"
proof (induction ts t i highest_prio hp_task rule: hp_loop.induct)
  case (1 ts t i highest_prio hp_task)
  show ?case
  proof (cases "i < NUM_TASKS")
    case False
    then show ?thesis
      by (subst hp_loop.simps [of ts t i], subst hp_loop.simps [of ts' t i]) simp
  next
    case True
    with "1.prems" have eq: "tasks ts i = tasks ts' i" by (simp add: agree_def)
    show ?thesis
      using 1 True
      by (subst hp_loop.simps [of ts t i], subst hp_loop.simps [of ts' t i])
         (simp add: eq Let_def)
  qed
qed

lemma agree_execute:
  assumes "agree ts ts'"
  shows "agree (execute ts t) (execute ts' t)"
proof -
  have "get_highest_prio_active_task ts t = get_highest_prio_active_task ts' t"
    unfolding get_highest_prio_active_task_def by (rule agree_hp_loop [OF assms])
  with assms show ?thesis
    by (simp add: agree_def tasks_execute)
qed

lemma agree_tick: "agree ts ts' \<Longrightarrow> agree (tick ts t) (tick ts' t)"
  unfolding tick_def by (intro agree_execute agree_release_loop)

lemma agree_sim_loop:
  "agree ts ts' \<Longrightarrow>
   snd (sim_loop ts t) = snd (sim_loop ts' t) \<and> agree (fst (sim_loop ts t)) (fst (sim_loop ts' t))"
proof (induction ts t arbitrary: ts' rule: sim_loop.induct)
  case (1 ts t)
  have hp: "hyper_period ts = hyper_period ts'"
    using "1.prems" by (simp add: agree_def)
  have miss: "miss_loop ts t 0 = miss_loop ts' t 0"
    by (rule agree_miss_loop [OF "1.prems"])
  show ?case
  proof (cases "t \<le> hyper_period ts")
    case False
    have "sim_loop ts t = (ts, None)"
      using False by (subst sim_loop.simps) simp
    moreover have "sim_loop ts' t = (ts', None)"
      using False hp by (subst sim_loop.simps) simp
    ultimately show ?thesis
      using "1.prems" by simp
  next
    case le: True
    show ?thesis
    proof (cases "miss_loop ts t 0")
      case (Some k)
      have "sim_loop ts t = (ts, Some k)"
        using le Some by (subst sim_loop.simps) simp
      moreover have "sim_loop ts' t = (ts', Some k)"
        using le Some hp miss by (subst sim_loop.simps) simp
      ultimately show ?thesis
        using "1.prems" by simp
    next
      case None
      have "sim_loop ts t = sim_loop (tick ts t) (t + 1)"
        using le None by (subst sim_loop.simps) simp
      moreover have "sim_loop ts' t = sim_loop (tick ts' t) (t + 1)"
        using le None hp miss by (subst sim_loop.simps) simp
      ultimately show ?thesis
        using "1.IH" [OF le None agree_tick [OF "1.prems"]] by simp
    qed
  qed
qed

lemma simulate_sas_cong:
  assumes "same_config ts ts'"
  shows "snd (simulate_sas ts) = snd (simulate_sas ts')"
  unfolding simulate_sas_def by (intro agree_sim_loop [THEN conjunct1] agree_reset assms)

section \<open>Testing all phase change points\<close>

text \<open>
  A call of \<^verbatim>\<open>assert\<close> whose condition is false aborts the program: the functions
  with an assertion return an error then, which names the condition.
\<close>

datatype error = Assertion_failed string

text \<open>
  The two ways out of a loop with a \<^verbatim>\<open>return\<close> in its body: the function returns a
  value, or the loop ends and the function goes on with the state.
\<close>

datatype ('r, 's) flow = Return 'r | Next 's

text \<open>
  Arithmetic on \<^verbatim>\<open>int\<close>, of 32 bits: the result wraps around.
\<close>

definition wrap_int :: "int \<Rightarrow> int" where
  "wrap_int x = (x + 2147483648) mod 4294967296 - 2147483648"

definition set_pcp :: "taskset_t \<Rightarrow> nat \<Rightarrow> int \<Rightarrow> taskset_t" where
  "set_pcp ts i v = upd_task ts i (\<lambda>T. T\<lparr>phase_change_point := v\<rparr>)"

lemma tasks_set_pcp [simp]:
  "tasks (set_pcp ts i v) j =
     (if j = i then (tasks ts i)\<lparr>phase_change_point := v\<rparr> else tasks ts j)"
  by (simp add: set_pcp_def)

lemma hyper_period_set_pcp [simp]: "hyper_period (set_pcp ts i v) = hyper_period ts"
  by (simp add: set_pcp_def)

text \<open>The parameters of a task that no function of the program changes.\<close>

definition base :: "task_t \<Rightarrow> int \<times> int \<times> int \<times> int" where
  "base T = (wcet T, period T, phase_1_prio T, phase_2_prio T)"

text \<open>
  \<open>keeps K ts ts'\<close>: from \<open>ts\<close> to \<open>ts'\<close> only the simulation state and the phase
  change points of the tasks in \<open>K\<close> have changed.
\<close>

definition keeps :: "nat set \<Rightarrow> taskset_t \<Rightarrow> taskset_t \<Rightarrow> bool" where
  "keeps K ts ts' =
     (hyper_period ts' = hyper_period ts \<and>
      (\<forall>j. base (tasks ts' j) = base (tasks ts j) \<and>
         (j \<notin> K \<longrightarrow> phase_change_point (tasks ts' j) = phase_change_point (tasks ts j))))"

lemma keeps_refl [simp]: "keeps K ts ts"
  by (simp add: keeps_def)

lemma keeps_trans: "keeps K ts ts' \<Longrightarrow> keeps K ts' ts'' \<Longrightarrow> keeps K ts ts''"
  by (simp add: keeps_def)

lemma keeps_mono: "keeps K ts ts' \<Longrightarrow> K \<subseteq> L \<Longrightarrow> keeps L ts ts'"
  by (auto simp: keeps_def)

lemma keeps_period: "keeps K ts ts' \<Longrightarrow> period (tasks ts' j) = period (tasks ts j)"
  by (auto simp: keeps_def base_def)

lemma keeps_set_pcp: "i \<in> K \<Longrightarrow> keeps K ts (set_pcp ts i v)"
  by (simp add: keeps_def base_def)

lemma keeps_simulate_sas: "keeps K ts (fst (simulate_sas ts))"
proof -
  have "static (tasks (fst (simulate_sas ts)) j) = static (tasks ts j)" for j by simp
  then show ?thesis
    by (simp add: keeps_def base_def static_def)
qed

function loop_T4pcp ::
  "taskset_t \<Rightarrow> int \<Rightarrow> int \<Rightarrow> (int \<times> taskset_t, taskset_t \<times> int) flow" where
  "loop_T4pcp ts generated_combinations T4pcp =
     (if T4pcp \<le> period (tasks ts 3)
      then (let ts = set_pcp ts 3 T4pcp;
                generated_combinations = generated_combinations + 1
            in case simulate_sas ts of
                 (ts, None) \<Rightarrow> Return (1, ts)
               | (ts, Some miss_task) \<Rightarrow> loop_T4pcp ts generated_combinations (T4pcp + 1))
      else Next (ts, generated_combinations))"
  by pat_completeness auto
termination
proof (relation "measure (\<lambda>(ts, g, T4pcp). nat (period (tasks ts 3) + 1 - T4pcp))")
  show "wf (measure (\<lambda>(ts, g, T4pcp). nat (period (tasks ts 3) + 1 - T4pcp)))" by simp
next
  fix ts :: taskset_t and generated_combinations T4pcp :: int
    and x xa xb y x2 :: "_"
  assume le: "T4pcp \<le> period (tasks ts 3)" and x: "x = set_pcp ts 3 T4pcp"
    and sim: "(xb, y) = simulate_sas x"
  from sim have "xb = fst (simulate_sas x)" by (metis fst_conv)
  then have "period (tasks xb 3) = period (tasks ts 3)"
    using x by simp
  with le show "((xb, xa, T4pcp + 1), ts, generated_combinations, T4pcp)
      \<in> measure (\<lambda>(ts, g, T4pcp). nat (period (tasks ts 3) + 1 - T4pcp))"
    by simp
qed

declare loop_T4pcp.simps [simp del]

text \<open>The task set at the exit of a loop, whichever way it is left.\<close>

fun flow_ts :: "(int \<times> taskset_t, taskset_t \<times> int) flow \<Rightarrow> taskset_t" where
  "flow_ts (Return (r, ts)) = ts"
| "flow_ts (Next (ts, g)) = ts"

lemma loop_T4pcp_keeps: "keeps {3} ts (flow_ts (loop_T4pcp ts g v))"
proof (induction ts g v rule: loop_T4pcp.induct)
  case (1 ts g v)
  show ?case
  proof (cases "v \<le> period (tasks ts 3)")
    case False
    then show ?thesis
      by (subst loop_T4pcp.simps) simp
  next
    case le: True
    let ?ts = "set_pcp ts 3 v"
    obtain ts1 y where sim: "simulate_sas ?ts = (ts1, y)" by (cases "simulate_sas ?ts")
    have k1: "keeps {3} ts ts1"
      using keeps_trans [OF keeps_set_pcp keeps_simulate_sas, of 3 "{3}" ts v] sim by simp
    show ?thesis
    proof (cases y)
      case None
      with le sim k1 show ?thesis
        by (subst loop_T4pcp.simps) (simp add: Let_def)
    next
      case (Some k)
      have "loop_T4pcp ts g v = loop_T4pcp ts1 (g + 1) (v + 1)"
        using le sim Some by (subst loop_T4pcp.simps) (simp add: Let_def)
      moreover note "1.IH" [OF le refl refl sim [symmetric] Some]
      ultimately show ?thesis
        using k1 by (auto intro: keeps_trans)
    qed
  qed
qed

lemma loop_T4pcp_Next_period:
  "loop_T4pcp ts g v = Next (ts', g') \<Longrightarrow> period (tasks ts' j) = period (tasks ts j)"
  using loop_T4pcp_keeps [of ts g v] by (simp add: keeps_period)

function loop_T3pcp ::
  "taskset_t \<Rightarrow> int \<Rightarrow> int \<Rightarrow> (int \<times> taskset_t, taskset_t \<times> int) flow" where
  "loop_T3pcp ts generated_combinations T3pcp =
     (if T3pcp \<le> period (tasks ts 2)
      then (let ts = set_pcp ts 2 T3pcp
            in case loop_T4pcp ts generated_combinations 0 of
                 Return r \<Rightarrow> Return r
               | Next (ts, generated_combinations) \<Rightarrow>
                   loop_T3pcp ts generated_combinations (T3pcp + 1))
      else Next (ts, generated_combinations))"
  by pat_completeness auto
termination
  by (relation "measure (\<lambda>(ts, g, T3pcp). nat (period (tasks ts 2) + 1 - T3pcp))")
     (auto dest!: loop_T4pcp_Next_period [where j = 2])

declare loop_T3pcp.simps [simp del]

lemma loop_T3pcp_keeps: "keeps {2, 3} ts (flow_ts (loop_T3pcp ts g v))"
proof (induction ts g v rule: loop_T3pcp.induct)
  case (1 ts g v)
  show ?case
  proof (cases "v \<le> period (tasks ts 2)")
    case False
    then show ?thesis
      by (subst loop_T3pcp.simps) simp
  next
    case le: True
    let ?ts = "set_pcp ts 2 v"
    have k1: "keeps {2, 3} ts (flow_ts (loop_T4pcp ?ts g 0))"
      by (rule keeps_trans [OF keeps_set_pcp keeps_mono [OF loop_T4pcp_keeps]]) simp_all
    show ?thesis
    proof (cases "loop_T4pcp ?ts g 0")
      case (Return r)
      with le k1 show ?thesis
        by (subst loop_T3pcp.simps) (simp add: Let_def)
    next
      case (Next s)
      obtain ts1 g1 where s: "s = (ts1, g1)" by (cases s)
      have "loop_T3pcp ts g v = loop_T3pcp ts1 g1 (v + 1)"
        using le Next s by (subst loop_T3pcp.simps) (simp add: Let_def)
      moreover note "1.IH" [OF le refl Next s [symmetric]]
      ultimately show ?thesis
        using k1 Next s by (auto intro: keeps_trans)
    qed
  qed
qed

lemma loop_T3pcp_Next_period:
  "loop_T3pcp ts g v = Next (ts', g') \<Longrightarrow> period (tasks ts' j) = period (tasks ts j)"
  using loop_T3pcp_keeps [of ts g v] by (simp add: keeps_period)

function loop_T2pcp ::
  "taskset_t \<Rightarrow> int \<Rightarrow> int \<Rightarrow> (int \<times> taskset_t, taskset_t \<times> int) flow" where
  "loop_T2pcp ts generated_combinations T2pcp =
     (if T2pcp \<le> period (tasks ts 1)
      then (let ts = set_pcp ts 1 T2pcp
            in case loop_T3pcp ts generated_combinations 0 of
                 Return r \<Rightarrow> Return r
               | Next (ts, generated_combinations) \<Rightarrow>
                   loop_T2pcp ts generated_combinations (T2pcp + 1))
      else Next (ts, generated_combinations))"
  by pat_completeness auto
termination
  by (relation "measure (\<lambda>(ts, g, T2pcp). nat (period (tasks ts 1) + 1 - T2pcp))")
     (auto dest!: loop_T3pcp_Next_period [where j = "Suc 0"])

declare loop_T2pcp.simps [simp del]

lemma loop_T2pcp_keeps: "keeps {1, 2, 3} ts (flow_ts (loop_T2pcp ts g v))"
proof (induction ts g v rule: loop_T2pcp.induct)
  case (1 ts g v)
  show ?case
  proof (cases "v \<le> period (tasks ts 1)")
    case False
    then show ?thesis
      by (subst loop_T2pcp.simps) simp
  next
    case le: True
    let ?ts = "set_pcp ts 1 v"
    have k1: "keeps {1, 2, 3} ts (flow_ts (loop_T3pcp ?ts g 0))"
      by (rule keeps_trans [OF keeps_set_pcp keeps_mono [OF loop_T3pcp_keeps]]) simp_all
    show ?thesis
    proof (cases "loop_T3pcp ?ts g 0")
      case (Return r)
      with le k1 show ?thesis
        by (subst loop_T2pcp.simps) (simp add: Let_def)
    next
      case (Next s)
      obtain ts1 g1 where s: "s = (ts1, g1)" by (cases s)
      have "loop_T2pcp ts g v = loop_T2pcp ts1 g1 (v + 1)"
        using le Next s by (subst loop_T2pcp.simps) (simp add: Let_def)
      moreover note "1.IH" [OF le refl Next s [symmetric]]
      ultimately show ?thesis
        using k1 Next s by (auto intro: keeps_trans)
    qed
  qed
qed

lemma loop_T2pcp_Next_period:
  "loop_T2pcp ts g v = Next (ts', g') \<Longrightarrow> period (tasks ts' j) = period (tasks ts j)"
  using loop_T2pcp_keeps [of ts g v] by (simp add: keeps_period)

function loop_T1pcp ::
  "taskset_t \<Rightarrow> int \<Rightarrow> int \<Rightarrow> (int \<times> taskset_t, taskset_t \<times> int) flow" where
  "loop_T1pcp ts generated_combinations T1pcp =
     (if T1pcp \<le> period (tasks ts 0)
      then (let ts = set_pcp ts 0 T1pcp
            in case loop_T2pcp ts generated_combinations 0 of
                 Return r \<Rightarrow> Return r
               | Next (ts, generated_combinations) \<Rightarrow>
                   loop_T1pcp ts generated_combinations (T1pcp + 1))
      else Next (ts, generated_combinations))"
  by pat_completeness auto
termination
  by (relation "measure (\<lambda>(ts, g, T1pcp). nat (period (tasks ts 0) + 1 - T1pcp))")
     (auto dest!: loop_T2pcp_Next_period [where j = 0])

declare loop_T1pcp.simps [simp del]

lemma loop_T1pcp_keeps: "keeps {0, 1, 2, 3} ts (flow_ts (loop_T1pcp ts g v))"
proof (induction ts g v rule: loop_T1pcp.induct)
  case (1 ts g v)
  show ?case
  proof (cases "v \<le> period (tasks ts 0)")
    case False
    then show ?thesis
      by (subst loop_T1pcp.simps) simp
  next
    case le: True
    let ?ts = "set_pcp ts 0 v"
    have k1: "keeps {0, 1, 2, 3} ts (flow_ts (loop_T2pcp ?ts g 0))"
      by (rule keeps_trans [OF keeps_set_pcp keeps_mono [OF loop_T2pcp_keeps]]) simp_all
    show ?thesis
    proof (cases "loop_T2pcp ?ts g 0")
      case (Return r)
      with le k1 show ?thesis
        by (subst loop_T1pcp.simps) (simp add: Let_def)
    next
      case (Next s)
      obtain ts1 g1 where s: "s = (ts1, g1)" by (cases s)
      have "loop_T1pcp ts g v = loop_T1pcp ts1 g1 (v + 1)"
        using le Next s by (subst loop_T1pcp.simps) (simp add: Let_def)
      moreover note "1.IH" [OF le refl Next s [symmetric]]
      ultimately show ?thesis
        using k1 Next s by (auto intro: keeps_trans)
    qed
  qed
qed

definition test_all_phase_change_points :: "taskset_t \<Rightarrow> error + int \<times> taskset_t" where
  "test_all_phase_change_points ts =
     (let total_combinations =
            wrap_int (wrap_int (wrap_int (wrap_int (period (tasks ts 0) + 1) *
                                          wrap_int (period (tasks ts 1) + 1)) *
                                wrap_int (period (tasks ts 2) + 1)) *
                      wrap_int (period (tasks ts 3) + 1));
          generated_combinations = 0
      in case loop_T1pcp ts generated_combinations 0 of
           Return r \<Rightarrow> Inr r
         | Next (ts, generated_combinations) \<Rightarrow>
             if generated_combinations = total_combinations then Inr (0, ts)
             else Inl (Assertion_failed ''generated_combinations == total_combinations''))"

text \<open>The task set with the four phase change points set to the given values.\<close>

definition with_pcps :: "taskset_t \<Rightarrow> int \<Rightarrow> int \<Rightarrow> int \<Rightarrow> int \<Rightarrow> taskset_t" where
  "with_pcps ts c0 c1 c2 c3 = set_pcp (set_pcp (set_pcp (set_pcp ts 0 c0) 1 c1) 2 c2) 3 c3"

text \<open>\<^verbatim>\<open>simulate_sas\<close> returns \<^verbatim>\<open>NULL\<close> with these phase change points.\<close>

definition schedulable_with :: "taskset_t \<Rightarrow> int \<Rightarrow> int \<Rightarrow> int \<Rightarrow> int \<Rightarrow> bool" where
  "schedulable_with ts c0 c1 c2 c3 = (snd (simulate_sas (with_pcps ts c0 c1 c2 c3)) = None)"

lemma static_eqI:
  "base T = base T' \<Longrightarrow> phase_change_point T = phase_change_point T' \<Longrightarrow> static T = static T'"
  by (simp add: base_def static_def)

lemma base_pcp_update [simp]: "base (T\<lparr>phase_change_point := v\<rparr>) = base T"
  by (simp add: base_def)

lemma less_NUM_TASKS: "i < NUM_TASKS \<longleftrightarrow> i = 0 \<or> i = 1 \<or> i = 2 \<or> i = 3"
  by (auto simp: NUM_TASKS_def)

lemma schedulable_with_cong:
  assumes "keeps K ts ts'"
  shows "schedulable_with ts' c0 c1 c2 c3 = schedulable_with ts c0 c1 c2 c3"
proof -
  have "same_config (with_pcps ts' c0 c1 c2 c3) (with_pcps ts c0 c1 c2 c3)"
    using assms
    by (auto simp: same_config_def with_pcps_def keeps_def less_NUM_TASKS intro!: static_eqI)
  from simulate_sas_cong [OF this] show ?thesis
    by (simp add: schedulable_with_def)
qed

lemma schedulable_with_current:
  "snd (simulate_sas ts) = None \<longleftrightarrow>
     schedulable_with ts (phase_change_point (tasks ts 0)) (phase_change_point (tasks ts 1))
       (phase_change_point (tasks ts 2)) (phase_change_point (tasks ts 3))"
proof -
  have "same_config ts
     (with_pcps ts (phase_change_point (tasks ts 0)) (phase_change_point (tasks ts 1))
       (phase_change_point (tasks ts 2)) (phase_change_point (tasks ts 3)))"
    by (auto simp: same_config_def with_pcps_def less_NUM_TASKS intro!: static_eqI)
  from simulate_sas_cong [OF this] show ?thesis
    by (simp add: schedulable_with_def)
qed

lemma keeps_pcp:
  "keeps K ts ts' \<Longrightarrow> j \<notin> K \<Longrightarrow> phase_change_point (tasks ts' j) = phase_change_point (tasks ts j)"
  by (simp add: keeps_def)

lemma range_ex_step:
  assumes "\<exists>c. v + 1 \<le> c \<and> c \<le> P \<and> Q c"
  shows "\<exists>c::int. v \<le> c \<and> c \<le> P \<and> Q c"
proof -
  from assms obtain c where "v + 1 \<le> c \<and> c \<le> P \<and> Q c" by blast
  then have "v \<le> c \<and> c \<le> P \<and> Q c" by simp
  then show ?thesis by blast
qed

lemma range_all_step:
  assumes "\<not> Q v" and "\<forall>c. v + 1 \<le> c \<and> c \<le> P \<longrightarrow> \<not> Q c"
  shows "\<forall>c::int. v \<le> c \<and> c \<le> P \<longrightarrow> \<not> Q c"
proof (intro allI impI)
  fix c :: int
  assume "v \<le> c \<and> c \<le> P"
  then consider "c = v" | "v + 1 \<le> c \<and> c \<le> P" by linarith
  then show "\<not> Q c" using assms by cases auto
qed

text \<open>
  With the phase change points of the tasks before it as they are in \<open>ts\<close>, some setting
  of the phase change points from the given task on is schedulable.
\<close>

definition sched4 :: "taskset_t \<Rightarrow> int \<Rightarrow> bool" where
  "sched4 ts c3 =
     schedulable_with ts (phase_change_point (tasks ts 0)) (phase_change_point (tasks ts 1))
       (phase_change_point (tasks ts 2)) c3"

definition sched3 :: "taskset_t \<Rightarrow> int \<Rightarrow> bool" where
  "sched3 ts c2 = (\<exists>c3. 0 \<le> c3 \<and> c3 \<le> period (tasks ts 3) \<and> sched4 (set_pcp ts 2 c2) c3)"

definition sched2 :: "taskset_t \<Rightarrow> int \<Rightarrow> bool" where
  "sched2 ts c1 = (\<exists>c2. 0 \<le> c2 \<and> c2 \<le> period (tasks ts 2) \<and> sched3 (set_pcp ts 1 c1) c2)"

definition sched1 :: "taskset_t \<Rightarrow> int \<Rightarrow> bool" where
  "sched1 ts c0 = (\<exists>c1. 0 \<le> c1 \<and> c1 \<le> period (tasks ts 1) \<and> sched2 (set_pcp ts 0 c0) c1)"

text \<open>The number of passes through the body of a loop and of the loops inside it.\<close>

definition count4 :: "taskset_t \<Rightarrow> int" where
  "count4 ts = int (nat (period (tasks ts 3) + 1))"

definition count3 :: "taskset_t \<Rightarrow> int" where
  "count3 ts = int (nat (period (tasks ts 2) + 1)) * count4 ts"

definition count2 :: "taskset_t \<Rightarrow> int" where
  "count2 ts = int (nat (period (tasks ts 1) + 1)) * count3 ts"

definition count1 :: "taskset_t \<Rightarrow> int" where
  "count1 ts = int (nat (period (tasks ts 0) + 1)) * count2 ts"

lemma keeps_set_pcp_both:
  "keeps K ts ts' \<Longrightarrow> keeps (K - {i}) (set_pcp ts i v) (set_pcp ts' i v)"
  by (simp add: keeps_def)

lemma sched4_cong:
  assumes "keeps K ts ts'" and "K \<subseteq> {3}"
  shows "sched4 ts' c = sched4 ts c"
proof -
  from assms(2) have "0 \<notin> K" "1 \<notin> K" "2 \<notin> K" by auto
  with assms(1) show ?thesis
    by (simp add: sched4_def keeps_pcp schedulable_with_cong [OF assms(1)])
qed

lemma sched3_cong:
  assumes "keeps K ts ts'" and "K \<subseteq> {2, 3}"
  shows "sched3 ts' c = sched3 ts c"
proof -
  have "keeps (K - {2}) (set_pcp ts 2 c) (set_pcp ts' 2 c)"
    using assms(1) by (rule keeps_set_pcp_both)
  moreover have "K - {2} \<subseteq> {3}" using assms(2) by auto
  ultimately have "sched4 (set_pcp ts' 2 c) d = sched4 (set_pcp ts 2 c) d" for d
    by (rule sched4_cong)
  then show ?thesis
    by (simp add: sched3_def keeps_period [OF assms(1)])
qed

lemma sched2_cong:
  assumes "keeps K ts ts'" and "K \<subseteq> {1, 2, 3}"
  shows "sched2 ts' c = sched2 ts c"
proof -
  have "keeps (K - {1}) (set_pcp ts 1 c) (set_pcp ts' 1 c)"
    using assms(1) by (rule keeps_set_pcp_both)
  moreover have "K - {1} \<subseteq> {2, 3}" using assms(2) by auto
  ultimately have "sched3 (set_pcp ts' 1 c) d = sched3 (set_pcp ts 1 c) d" for d
    by (rule sched3_cong)
  then show ?thesis
    by (simp add: sched2_def keeps_period [OF assms(1)])
qed

lemma sched1_cong:
  assumes "keeps K ts ts'" and "K \<subseteq> {0, 1, 2, 3}"
  shows "sched1 ts' c = sched1 ts c"
proof -
  have "keeps (K - {0}) (set_pcp ts 0 c) (set_pcp ts' 0 c)"
    using assms(1) by (rule keeps_set_pcp_both)
  moreover have "K - {0} \<subseteq> {1, 2, 3}" using assms(2) by auto
  ultimately have "sched2 (set_pcp ts' 0 c) d = sched2 (set_pcp ts 0 c) d" for d
    by (rule sched2_cong)
  then show ?thesis
    by (simp add: sched1_def keeps_period [OF assms(1)])
qed

lemma count4_cong: "keeps K ts ts' \<Longrightarrow> count4 ts' = count4 ts"
  by (simp add: count4_def keeps_period)

lemma count3_cong: "keeps K ts ts' \<Longrightarrow> count3 ts' = count3 ts"
  by (simp add: count3_def keeps_period count4_cong)

lemma count2_cong: "keeps K ts ts' \<Longrightarrow> count2 ts' = count2 ts"
  by (simp add: count2_def keeps_period count3_cong)

lemma count_step:
  "v \<le> P \<Longrightarrow> g + c + int (nat (P + 1 - (v + 1))) * c = g + int (nat (P + 1 - v)) * c"
proof -
  assume "v \<le> P"
  then have "int (nat (P + 1 - v)) = 1 + int (nat (P + 1 - (v + 1)))" by simp
  then show ?thesis by (simp add: algebra_simps)
qed

lemma loop_T4pcp_spec:
  "(case loop_T4pcp ts g v of
      Return (r, ts') \<Rightarrow>
        r = 1 \<and> (\<exists>c. v \<le> c \<and> c \<le> period (tasks ts 3) \<and> sched4 ts c)
    | Next (ts', g') \<Rightarrow>
        (\<forall>c. v \<le> c \<and> c \<le> period (tasks ts 3) \<longrightarrow> \<not> sched4 ts c) \<and>
        g' = g + int (nat (period (tasks ts 3) + 1 - v)))"
proof (induction ts g v rule: loop_T4pcp.induct)
  case (1 ts g v)
  show ?case
  proof (cases "v \<le> period (tasks ts 3)")
    case False
    then show ?thesis
      by (subst loop_T4pcp.simps) auto
  next
    case le: True
    let ?ts = "set_pcp ts 3 v"
    obtain ts1 y where sim: "simulate_sas ?ts = (ts1, y)" by (cases "simulate_sas ?ts")
    have k0: "keeps {3} ts ?ts" by (simp add: keeps_set_pcp)
    have k1: "keeps {3} ts ts1"
      using keeps_trans [OF k0 keeps_simulate_sas] sim by simp
    have cur: "y = None \<longleftrightarrow> sched4 ts v"
      using schedulable_with_current [of ?ts] sim
      by (simp add: schedulable_with_cong [OF k0] sched4_def)
    show ?thesis
    proof (cases y)
      case None
      have "loop_T4pcp ts g v = Return (1, ts1)"
        using le sim None by (subst loop_T4pcp.simps) (simp add: Let_def)
      with le cur None show ?thesis by auto
    next
      case (Some k)
      have eq: "loop_T4pcp ts g v = loop_T4pcp ts1 (g + 1) (v + 1)"
        using le sim Some by (subst loop_T4pcp.simps) (simp add: Let_def)
      have per: "period (tasks ts1 3) = period (tasks ts 3)"
        using k1 by (simp add: keeps_period)
      have cnt: "g + 1 + int (nat (period (tasks ts 3) + 1 - (v + 1))) =
          g + int (nat (period (tasks ts 3) + 1 - v))"
        using le by simp
      note IH = "1.IH" [OF le refl refl sim [symmetric] Some,
          unfolded per sched4_cong [OF k1 subset_refl]]
      from cur Some have nv: "\<not> sched4 ts v" by simp
      show ?thesis
      proof (cases "loop_T4pcp ts1 (g + 1) (v + 1)")
        case (Return r)
        with IH range_ex_step [of v "period (tasks ts 3)" "sched4 ts"] show ?thesis
          unfolding eq by (cases r) simp
      next
        case (Next s)
        with IH range_all_step [of "sched4 ts" v "period (tasks ts 3)", OF nv] cnt show ?thesis
          unfolding eq by (cases s) simp
      qed
    qed
  qed
qed

lemma loop_T3pcp_spec:
  "(case loop_T3pcp ts g v of
      Return (r, ts') \<Rightarrow>
        r = 1 \<and> (\<exists>c. v \<le> c \<and> c \<le> period (tasks ts 2) \<and> sched3 ts c)
    | Next (ts', g') \<Rightarrow>
        (\<forall>c. v \<le> c \<and> c \<le> period (tasks ts 2) \<longrightarrow> \<not> sched3 ts c) \<and>
        g' = g + int (nat (period (tasks ts 2) + 1 - v)) * count4 ts)"
proof (induction ts g v rule: loop_T3pcp.induct)
  case (1 ts g v)
  show ?case
  proof (cases "v \<le> period (tasks ts 2)")
    case False
    then show ?thesis
      by (subst loop_T3pcp.simps) auto
  next
    case le: True
    let ?ts = "set_pcp ts 2 v"
    have k0: "keeps {2} ts ?ts" by (simp add: keeps_set_pcp)
    note inner = loop_T4pcp_spec [where ts = "?ts" and g = g and v = 0]
    have per0: "period (tasks ?ts 3) = period (tasks ts 3)" by simp
    show ?thesis
    proof (cases "loop_T4pcp ?ts g 0")
      case (Return r)
      obtain r1 ts1 where r: "r = (r1, ts1)" by (cases r)
      have "loop_T3pcp ts g v = Return r"
        using le Return by (subst loop_T3pcp.simps) (simp add: Let_def)
      moreover from inner Return r have "r1 = 1" and "sched3 ts v"
        unfolding sched3_def per0 by auto
      ultimately show ?thesis
        using le r by auto
    next
      case (Next s)
      obtain ts1 g1 where s: "s = (ts1, g1)" by (cases s)
      have eq: "loop_T3pcp ts g v = loop_T3pcp ts1 g1 (v + 1)"
        using le Next s by (subst loop_T3pcp.simps) (simp add: Let_def)
      have k1: "keeps {2, 3} ts ts1"
        using keeps_trans [OF keeps_mono [OF k0] keeps_mono [OF loop_T4pcp_keeps [of ?ts g 0]],
            of "{2, 3}"] Next s
        by simp
      have per: "period (tasks ts1 2) = period (tasks ts 2)"
        using k1 by (simp add: keeps_period)
      from inner Next s have nv: "\<not> sched3 ts v" and g1: "g1 = g + count4 ts"
        unfolding sched3_def per0 by (auto simp: count4_def)
      note IH = "1.IH" [OF le refl Next s [symmetric],
          unfolded per sched3_cong [OF k1 subset_refl] count4_cong [OF k1]]
      have cnt: "g1 + int (nat (period (tasks ts 2) + 1 - (v + 1))) * count4 ts =
          g + int (nat (period (tasks ts 2) + 1 - v)) * count4 ts"
        unfolding g1 using le by (rule count_step)
      show ?thesis
      proof (cases "loop_T3pcp ts1 g1 (v + 1)")
        case (Return r)
        with IH range_ex_step [of v "period (tasks ts 2)" "sched3 ts"] show ?thesis
          unfolding eq by (cases r) simp
      next
        case (Next s')
        with IH range_all_step [of "sched3 ts" v "period (tasks ts 2)", OF nv] cnt
        show ?thesis
          unfolding eq by (cases s') simp
      qed
    qed
  qed
qed

lemma loop_T2pcp_spec:
  "(case loop_T2pcp ts g v of
      Return (r, ts') \<Rightarrow>
        r = 1 \<and> (\<exists>c. v \<le> c \<and> c \<le> period (tasks ts 1) \<and> sched2 ts c)
    | Next (ts', g') \<Rightarrow>
        (\<forall>c. v \<le> c \<and> c \<le> period (tasks ts 1) \<longrightarrow> \<not> sched2 ts c) \<and>
        g' = g + int (nat (period (tasks ts 1) + 1 - v)) * count3 ts)"
proof (induction ts g v rule: loop_T2pcp.induct)
  case (1 ts g v)
  show ?case
  proof (cases "v \<le> period (tasks ts 1)")
    case False
    then show ?thesis
      by (subst loop_T2pcp.simps) auto
  next
    case le: True
    let ?ts = "set_pcp ts 1 v"
    have k0: "keeps {1} ts ?ts" by (simp add: keeps_set_pcp)
    note inner = loop_T3pcp_spec [where ts = "?ts" and g = g and v = 0]
    have per0: "period (tasks ?ts 2) = period (tasks ts 2)" by simp
    show ?thesis
    proof (cases "loop_T3pcp ?ts g 0")
      case (Return r)
      obtain r1 ts1 where r: "r = (r1, ts1)" by (cases r)
      have "loop_T2pcp ts g v = Return r"
        using le Return by (subst loop_T2pcp.simps) (simp add: Let_def)
      moreover from inner Return r have "r1 = 1" and "sched2 ts v"
        unfolding sched2_def per0 by auto
      ultimately show ?thesis
        using le r by auto
    next
      case (Next s)
      obtain ts1 g1 where s: "s = (ts1, g1)" by (cases s)
      have eq: "loop_T2pcp ts g v = loop_T2pcp ts1 g1 (v + 1)"
        using le Next s by (subst loop_T2pcp.simps) (simp add: Let_def)
      have k1: "keeps {1, 2, 3} ts ts1"
        using keeps_trans [OF keeps_mono [OF k0] keeps_mono [OF loop_T3pcp_keeps [of ?ts g 0]],
            of "{1, 2, 3}"] Next s
        by simp
      have per: "period (tasks ts1 1) = period (tasks ts 1)"
        using k1 by (simp add: keeps_period)
      from inner Next s have nv: "\<not> sched2 ts v" and g1: "g1 = g + count3 ts"
        unfolding sched2_def per0 count4_cong [OF k0] by (auto simp: count3_def)
      note IH = "1.IH" [OF le refl Next s [symmetric],
          unfolded per sched2_cong [OF k1 subset_refl] count3_cong [OF k1]]
      have cnt: "g1 + int (nat (period (tasks ts 1) + 1 - (v + 1))) * count3 ts =
          g + int (nat (period (tasks ts 1) + 1 - v)) * count3 ts"
        unfolding g1 using le by (rule count_step)
      show ?thesis
      proof (cases "loop_T2pcp ts1 g1 (v + 1)")
        case (Return r)
        with IH range_ex_step [of v "period (tasks ts 1)" "sched2 ts"] show ?thesis
          unfolding eq by (cases r) simp
      next
        case (Next s')
        with IH range_all_step [of "sched2 ts" v "period (tasks ts 1)", OF nv] cnt
        show ?thesis
          unfolding eq by (cases s') simp
      qed
    qed
  qed
qed

lemma loop_T1pcp_spec:
  "(case loop_T1pcp ts g v of
      Return (r, ts') \<Rightarrow>
        r = 1 \<and> (\<exists>c. v \<le> c \<and> c \<le> period (tasks ts 0) \<and> sched1 ts c)
    | Next (ts', g') \<Rightarrow>
        (\<forall>c. v \<le> c \<and> c \<le> period (tasks ts 0) \<longrightarrow> \<not> sched1 ts c) \<and>
        g' = g + int (nat (period (tasks ts 0) + 1 - v)) * count2 ts)"
proof (induction ts g v rule: loop_T1pcp.induct)
  case (1 ts g v)
  show ?case
  proof (cases "v \<le> period (tasks ts 0)")
    case False
    then show ?thesis
      by (subst loop_T1pcp.simps) auto
  next
    case le: True
    let ?ts = "set_pcp ts 0 v"
    have k0: "keeps {0} ts ?ts" by (simp add: keeps_set_pcp)
    note inner = loop_T2pcp_spec [where ts = "?ts" and g = g and v = 0]
    have per0: "period (tasks ?ts 1) = period (tasks ts 1)" by simp
    show ?thesis
    proof (cases "loop_T2pcp ?ts g 0")
      case (Return r)
      obtain r1 ts1 where r: "r = (r1, ts1)" by (cases r)
      have "loop_T1pcp ts g v = Return r"
        using le Return by (subst loop_T1pcp.simps) (simp add: Let_def)
      moreover from inner Return r have "r1 = 1" and "sched1 ts v"
        unfolding sched1_def per0 by auto
      ultimately show ?thesis
        using le r by auto
    next
      case (Next s)
      obtain ts1 g1 where s: "s = (ts1, g1)" by (cases s)
      have eq: "loop_T1pcp ts g v = loop_T1pcp ts1 g1 (v + 1)"
        using le Next s by (subst loop_T1pcp.simps) (simp add: Let_def)
      have k1: "keeps {0, 1, 2, 3} ts ts1"
        using keeps_trans [OF keeps_mono [OF k0] keeps_mono [OF loop_T2pcp_keeps [of ?ts g 0]],
            of "{0, 1, 2, 3}"] Next s
        by simp
      have per: "period (tasks ts1 0) = period (tasks ts 0)"
        using k1 by (simp add: keeps_period)
      from inner Next s have nv: "\<not> sched1 ts v" and g1: "g1 = g + count2 ts"
        unfolding sched1_def per0 count3_cong [OF k0] by (auto simp: count2_def)
      note IH = "1.IH" [OF le refl Next s [symmetric],
          unfolded per sched1_cong [OF k1 subset_refl] count2_cong [OF k1]]
      have cnt: "g1 + int (nat (period (tasks ts 0) + 1 - (v + 1))) * count2 ts =
          g + int (nat (period (tasks ts 0) + 1 - v)) * count2 ts"
        unfolding g1 using le by (rule count_step)
      show ?thesis
      proof (cases "loop_T1pcp ts1 g1 (v + 1)")
        case (Return r)
        with IH range_ex_step [of v "period (tasks ts 0)" "sched1 ts"] show ?thesis
          unfolding eq by (cases r) simp
      next
        case (Next s')
        with IH range_all_step [of "sched1 ts" v "period (tasks ts 0)", OF nv] cnt
        show ?thesis
          unfolding eq by (cases s') simp
      qed
    qed
  qed
qed

text \<open>Some setting of the four phase change points within the periods is schedulable.\<close>

definition some_schedulable :: "taskset_t \<Rightarrow> bool" where
  "some_schedulable ts =
     (\<exists>c0 c1 c2 c3.
        0 \<le> c0 \<and> c0 \<le> period (tasks ts 0) \<and> 0 \<le> c1 \<and> c1 \<le> period (tasks ts 1) \<and>
        0 \<le> c2 \<and> c2 \<le> period (tasks ts 2) \<and> 0 \<le> c3 \<and> c3 \<le> period (tasks ts 3) \<and>
        snd (simulate_sas (with_pcps ts c0 c1 c2 c3)) = None)"

lemma sched4_with_pcps:
  "sched4 (set_pcp (set_pcp (set_pcp ts 0 c0) 1 c1) 2 c2) c3 = schedulable_with ts c0 c1 c2 c3"
proof -
  let ?ts = "set_pcp (set_pcp (set_pcp ts 0 c0) 1 c1) 2 c2"
  have "keeps {0, 1, 2} ts ?ts"
    by (simp add: keeps_def)
  from schedulable_with_cong [OF this] show ?thesis
    by (simp add: sched4_def)
qed

lemma some_schedulable_sched1:
  "some_schedulable ts \<longleftrightarrow> (\<exists>c. 0 \<le> c \<and> c \<le> period (tasks ts 0) \<and> sched1 ts c)"
  unfolding some_schedulable_def sched1_def sched2_def sched3_def sched4_with_pcps
    schedulable_with_def
  by simp

lemma loop_T1pcp_top:
  "(case loop_T1pcp ts 0 0 of
      Return (r, ts') \<Rightarrow> r = 1 \<and> some_schedulable ts
    | Next (ts', g') \<Rightarrow> \<not> some_schedulable ts \<and> g' = count1 ts)"
  using loop_T1pcp_spec [where ts = ts and g = 0 and v = 0]
  unfolding some_schedulable_sched1 count1_def
  by (auto split: flow.splits)

text \<open>The value of \<^verbatim>\<open>total_combinations\<close>: the product is computed on \<^verbatim>\<open>int\<close>.\<close>

definition total_combinations :: "taskset_t \<Rightarrow> int" where
  "total_combinations ts =
     wrap_int (wrap_int (wrap_int (wrap_int (period (tasks ts 0) + 1) *
                                   wrap_int (period (tasks ts 1) + 1)) *
                         wrap_int (period (tasks ts 2) + 1)) *
               wrap_int (period (tasks ts 3) + 1))"


lemma test_all_exhausted:
  assumes "\<not> some_schedulable ts"
  shows "\<exists>ts'. test_all_phase_change_points ts =
      (if count1 ts = total_combinations ts then Inr (0, ts') else Inl (Assertion_failed ''generated_combinations == total_combinations''))"
proof (cases "loop_T1pcp ts 0 0")
  case (Return r)
  with loop_T1pcp_top [of ts] assms show ?thesis by (cases r) auto
next
  case (Next s)
  obtain ts1 g1 where s: "s = (ts1, g1)" by (cases s)
  from loop_T1pcp_top [of ts] Next s have "g1 = count1 ts" by auto
  with Next s show ?thesis
    by (auto simp: test_all_phase_change_points_def Let_def total_combinations_def)
qed


lemma keeps_decrement:
  "keeps UNIV ts (upd_task ts k (\<lambda>T. T\<lparr>phase_change_point := phase_change_point T - 1\<rparr>))"
  by (simp add: keeps_def base_def)




lemma keeps_fdms_init: "keeps UNIV ts (fdms_init ts)"
  by (simp add: keeps_def fdms_init_def Let_def base_def)



lemma keeps_fdms_loop: "keeps UNIV ts (fst (snd (fdms_loop ts s)))"
proof (induction ts s rule: fdms_loop.induct)
  case (1 ts sims)
  obtain ts1 y where sim: "simulate_sas ts = (ts1, y)" by (cases "simulate_sas ts")
  then have k1: "keeps UNIV ts ts1"
    using keeps_simulate_sas [of UNIV ts] by simp
  show ?case
  proof (cases y)
    case None
    with sim k1 show ?thesis
      by (subst fdms_loop.simps) simp
  next
    case (Some k)
    show ?thesis
    proof (cases "0 < phase_change_point (tasks ts1 k)")
      case False
      with sim Some k1 show ?thesis
        by (subst fdms_loop.simps) simp
    next
      case True
      let ?ts = "upd_task ts1 k (\<lambda>T. T\<lparr>phase_change_point := phase_change_point T - 1\<rparr>)"
      have "fdms_loop ts sims = fdms_loop ?ts (sims + 1)"
        using sim Some True by (subst fdms_loop.simps) simp
      moreover have "keeps UNIV ts ?ts"
        by (rule keeps_trans [OF k1 keeps_decrement])
      ultimately show ?thesis
        using "1.IH" [OF sim [symmetric] Some True] by (auto intro: keeps_trans)
    qed
  qed
qed







text \<open>
  When no setting of the phase change points is schedulable and the product of the four
  \<open>period + 1\<close> is below \<open>2 ^ 31\<close>, the assertion holds and the function returns 0.
\<close>

lemma wrap_int_id: "- 2147483648 \<le> x \<Longrightarrow> x < 2147483648 \<Longrightarrow> wrap_int x = x"
  by (simp add: wrap_int_def)

lemma wrap_int_product:
  assumes "1 \<le> a" "1 \<le> b" "1 \<le> c" "1 \<le> d" and "a * b * c * d < 2147483648"
  shows "wrap_int (wrap_int (wrap_int (wrap_int a * wrap_int b) * wrap_int c) * wrap_int d) =
         a * b * c * d"
proof -
  have ab: "1 \<le> a * b" using assms(1,2) by (metis mult_mono' mult_1 zero_le_one)
  have abc: "1 \<le> a * b * c" using ab assms(3) by (metis mult_mono' mult_1 zero_le_one)
  have 1: "a * b * c \<le> a * b * c * d"
    using mult_left_mono [OF assms(4), of "a * b * c"] abc by simp
  have 2: "a * b \<le> a * b * c"
    using mult_left_mono [OF assms(3), of "a * b"] ab by simp
  have 3: "a \<le> a * b"
    using mult_left_mono [OF assms(2), of a] assms(1) by simp
  have 4: "b \<le> a * b"
    using mult_right_mono [OF assms(1), of b] assms(2) by simp
  have 5: "c \<le> a * b * c"
    using mult_right_mono [OF ab, of c] assms(3) by simp
  have 6: "d \<le> a * b * c * d"
    using mult_right_mono [OF abc, of d] assms(4) by simp
  have "wrap_int a = a" "wrap_int b = b" "wrap_int c = c" "wrap_int d = d"
    "wrap_int (a * b) = a * b" "wrap_int (a * b * c) = a * b * c"
    "wrap_int (a * b * c * d) = a * b * c * d"
    using assms ab abc 1 2 3 4 5 6 by (intro wrap_int_id; linarith)+
  then show ?thesis by simp
qed

lemma test_all_returns_0:
  assumes "\<forall>i<NUM_TASKS. 0 < period (tasks ts i)"
    and "(period (tasks ts 0) + 1) * (period (tasks ts 1) + 1) * (period (tasks ts 2) + 1) *
         (period (tasks ts 3) + 1) < 2147483648"
    and "\<not> some_schedulable ts"
  shows "\<exists>ts'. test_all_phase_change_points ts = Inr (0, ts')"
proof -
  have pos: "0 < period (tasks ts 0)" "0 < period (tasks ts 1)" "0 < period (tasks ts 2)"
    "0 < period (tasks ts 3)"
    using assms(1) by (simp_all add: NUM_TASKS_def)
  then have "total_combinations ts =
      (period (tasks ts 0) + 1) * (period (tasks ts 1) + 1) * (period (tasks ts 2) + 1) *
      (period (tasks ts 3) + 1)"
    unfolding total_combinations_def using assms(2) by (intro wrap_int_product) simp_all
  moreover have "count1 ts =
      (period (tasks ts 0) + 1) * (period (tasks ts 1) + 1) * (period (tasks ts 2) + 1) *
      (period (tasks ts 3) + 1)"
    using pos by (simp add: count1_def count2_def count3_def count4_def)
  ultimately show ?thesis
    using test_all_exhausted [OF assms(3)] by simp
qed

section \<open>Searching the priorities\<close>

text \<open>
  A loop \<^verbatim>\<open>for (int v = lo; v < hi; v++)\<close> whose body may return from the function
  (\<open>Return\<close>) or go on to the next pass, at its end or by \<^verbatim>\<open>continue\<close> (\<open>Next\<close>).
\<close>

function for_lt :: "int \<Rightarrow> int \<Rightarrow> (int \<Rightarrow> 's \<Rightarrow> ('r, 's) flow) \<Rightarrow> 's \<Rightarrow> ('r, 's) flow" where
  "for_lt v hi body s =
     (if v < hi
      then (case body v s of Return r \<Rightarrow> Return r | Next s' \<Rightarrow> for_lt (v + 1) hi body s')
      else Next s)"
  by pat_completeness auto
termination
  by (relation "measure (\<lambda>(v, hi, body, s). nat (hi - v))") auto

declare for_lt.simps [simp del]

definition set_p1 :: "taskset_t \<Rightarrow> nat \<Rightarrow> int \<Rightarrow> taskset_t" where
  "set_p1 ts i v = upd_task ts i (\<lambda>T. T\<lparr>phase_1_prio := v\<rparr>)"

definition set_p2 :: "taskset_t \<Rightarrow> nat \<Rightarrow> int \<Rightarrow> taskset_t" where
  "set_p2 ts i v = upd_task ts i (\<lambda>T. T\<lparr>phase_2_prio := v\<rparr>)"

text \<open>
  What \<^verbatim>\<open>print_taskset(ts, 1, 0)\<close> prints of the priorities: the phase 1 and the phase 2
  priority of every task. The searches print it for every permutation they generate;
  \<open>out\<close> is the list of these tables, in the order of the output.
\<close>

definition prio_table :: "taskset_t \<Rightarrow> (int \<times> int) list" where
  "prio_table ts =
     map (\<lambda>i. (phase_1_prio (tasks ts i), phase_2_prio (tasks ts i))) [0..<NUM_TASKS]"

type_synonym search_state = "taskset_t \<times> int \<times> (int \<times> int) list list"

type_synonym search_result = "(error + int \<times> taskset_t) \<times> (int \<times> int) list list"

text \<open>
  The bodies of the eight nested loops of \<^verbatim>\<open>test_all_configurations_exhaustively\<close>,
  the innermost first. The body of a loop has the variables of the loops around it as
  its first arguments and its own variable as the last one.
\<close>

definition all_T4p1 ::
  "int \<Rightarrow> int \<Rightarrow> int \<Rightarrow> int \<Rightarrow>
   int \<Rightarrow> int \<Rightarrow> int \<Rightarrow> int \<Rightarrow>
   search_state \<Rightarrow> (search_result, search_state) flow" where
  "all_T4p1 T1p2 T2p2 T3p2 T4p2 T1p1 T2p1 T3p1 T4p1 s =
     (case s of (ts, generated_permutations, out) \<Rightarrow>
        if T4p1 = T1p2 then Next s else
        if T4p1 = T2p2 then Next s else
        if T4p1 = T3p2 then Next s else
        if T4p1 = T4p2 then Next s else
        if T4p1 = T1p1 then Next s else
        if T4p1 = T2p1 then Next s else
        if T4p1 = T3p1 then Next s else
        (let ts = set_p1 ts 3 T4p1;
             generated_permutations = generated_permutations + 1;
             out = out @ [prio_table ts]
         in case test_all_phase_change_points ts of
              Inl e \<Rightarrow> Return (Inl e, out)
            | Inr (r, ts) \<Rightarrow>
                if r \<noteq> 0 then Return (Inr (1, ts), out)
                else Next (ts, generated_permutations, out)))"

definition all_T3p1 ::
  "int \<Rightarrow> int \<Rightarrow> int \<Rightarrow> int \<Rightarrow>
   int \<Rightarrow> int \<Rightarrow> int \<Rightarrow>
   search_state \<Rightarrow> (search_result, search_state) flow" where
  "all_T3p1 T1p2 T2p2 T3p2 T4p2 T1p1 T2p1 T3p1 s =
     (case s of (ts, generated_permutations, out) \<Rightarrow>
        if T3p1 = T1p2 then Next s else
        if T3p1 = T2p2 then Next s else
        if T3p1 = T3p2 then Next s else
        if T3p1 = T4p2 then Next s else
        if T3p1 = T1p1 then Next s else
        if T3p1 = T2p1 then Next s else
        for_lt 0 8 (all_T4p1 T1p2 T2p2 T3p2 T4p2 T1p1 T2p1 T3p1)
          (set_p1 ts 2 T3p1, generated_permutations, out))"

definition all_T2p1 ::
  "int \<Rightarrow> int \<Rightarrow> int \<Rightarrow> int \<Rightarrow>
   int \<Rightarrow> int \<Rightarrow>
   search_state \<Rightarrow> (search_result, search_state) flow" where
  "all_T2p1 T1p2 T2p2 T3p2 T4p2 T1p1 T2p1 s =
     (case s of (ts, generated_permutations, out) \<Rightarrow>
        if T2p1 = T1p2 then Next s else
        if T2p1 = T2p2 then Next s else
        if T2p1 = T3p2 then Next s else
        if T2p1 = T4p2 then Next s else
        if T2p1 = T1p1 then Next s else
        for_lt 0 8 (all_T3p1 T1p2 T2p2 T3p2 T4p2 T1p1 T2p1)
          (set_p1 ts 1 T2p1, generated_permutations, out))"

definition all_T1p1 ::
  "int \<Rightarrow> int \<Rightarrow> int \<Rightarrow> int \<Rightarrow>
   int \<Rightarrow>
   search_state \<Rightarrow> (search_result, search_state) flow" where
  "all_T1p1 T1p2 T2p2 T3p2 T4p2 T1p1 s =
     (case s of (ts, generated_permutations, out) \<Rightarrow>
        if T1p1 = T1p2 then Next s else
        if T1p1 = T2p2 then Next s else
        if T1p1 = T3p2 then Next s else
        if T1p1 = T4p2 then Next s else
        for_lt 0 8 (all_T2p1 T1p2 T2p2 T3p2 T4p2 T1p1)
          (set_p1 ts 0 T1p1, generated_permutations, out))"

definition all_T4p2 ::
  "int \<Rightarrow> int \<Rightarrow> int \<Rightarrow> int \<Rightarrow>
   search_state \<Rightarrow> (search_result, search_state) flow" where
  "all_T4p2 T1p2 T2p2 T3p2 T4p2 s =
     (case s of (ts, generated_permutations, out) \<Rightarrow>
        if T4p2 = T1p2 then Next s else
        if T4p2 = T2p2 then Next s else
        if T4p2 = T3p2 then Next s else
        for_lt 0 8 (all_T1p1 T1p2 T2p2 T3p2 T4p2)
          (set_p2 ts 3 T4p2, generated_permutations, out))"

definition all_T3p2 ::
  "int \<Rightarrow> int \<Rightarrow> int \<Rightarrow>
   search_state \<Rightarrow> (search_result, search_state) flow" where
  "all_T3p2 T1p2 T2p2 T3p2 s =
     (case s of (ts, generated_permutations, out) \<Rightarrow>
        if T3p2 = T1p2 then Next s else
        if T3p2 = T2p2 then Next s else
        for_lt 0 8 (all_T4p2 T1p2 T2p2 T3p2)
          (set_p2 ts 2 T3p2, generated_permutations, out))"

definition all_T2p2 ::
  "int \<Rightarrow> int \<Rightarrow>
   search_state \<Rightarrow> (search_result, search_state) flow" where
  "all_T2p2 T1p2 T2p2 s =
     (case s of (ts, generated_permutations, out) \<Rightarrow>
        if T2p2 = T1p2 then Next s else
        for_lt 0 8 (all_T3p2 T1p2 T2p2)
          (set_p2 ts 1 T2p2, generated_permutations, out))"

definition all_T1p2 ::
  "int \<Rightarrow>
   search_state \<Rightarrow> (search_result, search_state) flow" where
  "all_T1p2 T1p2 s =
     (case s of (ts, generated_permutations, out) \<Rightarrow>
        for_lt 0 8 (all_T2p2 T1p2)
          (set_p2 ts 0 T1p2, generated_permutations, out))"

definition test_all_configurations_exhaustively :: "taskset_t \<Rightarrow> search_result" where
  "test_all_configurations_exhaustively ts =
     (let total_permutations = 8 * 7 * 6 * 5 * 4 * 3 * 2 * 1;
          generated_permutations = 0
      in case for_lt 0 8 all_T1p2 (ts, generated_permutations, []) of
           Return r \<Rightarrow> r
         | Next (ts, generated_permutations, out) \<Rightarrow>
             (if generated_permutations = total_permutations then Inr (0, ts)
              else Inl (Assertion_failed ''generated_permutations == total_permutations''),
              out))"

text \<open>
  The bodies of the eight nested loops of \<^verbatim>\<open>test_rm_configurations_exhaustively\<close>,
  the innermost first.
\<close>

definition rm_T4p2 ::
  "int \<Rightarrow> int \<Rightarrow> int \<Rightarrow> int \<Rightarrow>
   int \<Rightarrow> int \<Rightarrow> int \<Rightarrow> int \<Rightarrow>
   search_state \<Rightarrow> (search_result, search_state) flow" where
  "rm_T4p2 T1p1 T2p1 T3p1 T4p1 T1p2 T2p2 T3p2 T4p2 s =
     (case s of (ts, generated_permutations, out) \<Rightarrow>
        if T4p2 = T1p1 then Next s else
        if T4p2 = T2p1 then Next s else
        if T4p2 = T3p1 then Next s else
        if T4p2 = T4p1 then Next s else
        if T4p2 = T1p2 then Next s else
        if T4p2 = T2p2 then Next s else
        if T4p2 = T3p2 then Next s else
        (let ts = set_p2 ts 3 T4p2;
             generated_permutations = generated_permutations + 1;
             out = out @ [prio_table ts]
         in case test_all_phase_change_points ts of
              Inl e \<Rightarrow> Return (Inl e, out)
            | Inr (r, ts) \<Rightarrow>
                if r \<noteq> 0 then Return (Inr (1, ts), out)
                else Next (ts, generated_permutations, out)))"

definition rm_T3p2 ::
  "int \<Rightarrow> int \<Rightarrow> int \<Rightarrow> int \<Rightarrow>
   int \<Rightarrow> int \<Rightarrow> int \<Rightarrow>
   search_state \<Rightarrow> (search_result, search_state) flow" where
  "rm_T3p2 T1p1 T2p1 T3p1 T4p1 T1p2 T2p2 T3p2 s =
     (case s of (ts, generated_permutations, out) \<Rightarrow>
        if T3p2 = T1p1 then Next s else
        if T3p2 = T2p1 then Next s else
        if T3p2 = T3p1 then Next s else
        if T3p2 = T4p1 then Next s else
        if T3p2 = T1p2 then Next s else
        if T3p2 = T2p2 then Next s else
        for_lt 0 8 (rm_T4p2 T1p1 T2p1 T3p1 T4p1 T1p2 T2p2 T3p2)
          (set_p2 ts 2 T3p2, generated_permutations, out))"

definition rm_T2p2 ::
  "int \<Rightarrow> int \<Rightarrow> int \<Rightarrow> int \<Rightarrow>
   int \<Rightarrow> int \<Rightarrow>
   search_state \<Rightarrow> (search_result, search_state) flow" where
  "rm_T2p2 T1p1 T2p1 T3p1 T4p1 T1p2 T2p2 s =
     (case s of (ts, generated_permutations, out) \<Rightarrow>
        if T2p2 = T1p1 then Next s else
        if T2p2 = T2p1 then Next s else
        if T2p2 = T3p1 then Next s else
        if T2p2 = T4p1 then Next s else
        if T2p2 = T1p2 then Next s else
        for_lt 0 8 (rm_T3p2 T1p1 T2p1 T3p1 T4p1 T1p2 T2p2)
          (set_p2 ts 1 T2p2, generated_permutations, out))"

definition rm_T1p2 ::
  "int \<Rightarrow> int \<Rightarrow> int \<Rightarrow> int \<Rightarrow>
   int \<Rightarrow>
   search_state \<Rightarrow> (search_result, search_state) flow" where
  "rm_T1p2 T1p1 T2p1 T3p1 T4p1 T1p2 s =
     (case s of (ts, generated_permutations, out) \<Rightarrow>
        if T1p2 = T1p1 then Next s else
        if T1p2 = T2p1 then Next s else
        if T1p2 = T3p1 then Next s else
        if T1p2 = T4p1 then Next s else
        for_lt 0 8 (rm_T2p2 T1p1 T2p1 T3p1 T4p1 T1p2)
          (set_p2 ts 0 T1p2, generated_permutations, out))"

definition rm_T4p1 ::
  "int \<Rightarrow> int \<Rightarrow> int \<Rightarrow> int \<Rightarrow>
   search_state \<Rightarrow> (search_result, search_state) flow" where
  "rm_T4p1 T1p1 T2p1 T3p1 T4p1 s =
     (case s of (ts, generated_permutations, out) \<Rightarrow>
        for_lt 0 8 (rm_T1p2 T1p1 T2p1 T3p1 T4p1)
          (set_p1 ts 3 T4p1, generated_permutations, out))"

definition rm_T3p1 ::
  "int \<Rightarrow> int \<Rightarrow> int \<Rightarrow>
   search_state \<Rightarrow> (search_result, search_state) flow" where
  "rm_T3p1 T1p1 T2p1 T3p1 s =
     (case s of (ts, generated_permutations, out) \<Rightarrow>
        for_lt (T3p1 + 1) 8 (rm_T4p1 T1p1 T2p1 T3p1)
          (set_p1 ts 2 T3p1, generated_permutations, out))"

definition rm_T2p1 ::
  "int \<Rightarrow> int \<Rightarrow>
   search_state \<Rightarrow> (search_result, search_state) flow" where
  "rm_T2p1 T1p1 T2p1 s =
     (case s of (ts, generated_permutations, out) \<Rightarrow>
        for_lt (T2p1 + 1) 8 (rm_T3p1 T1p1 T2p1)
          (set_p1 ts 1 T2p1, generated_permutations, out))"

definition rm_T1p1 ::
  "int \<Rightarrow>
   search_state \<Rightarrow> (search_result, search_state) flow" where
  "rm_T1p1 T1p1 s =
     (case s of (ts, generated_permutations, out) \<Rightarrow>
        for_lt (T1p1 + 1) 8 (rm_T2p1 T1p1)
          (set_p1 ts 0 T1p1, generated_permutations, out))"

definition test_rm_configurations_exhaustively :: "taskset_t \<Rightarrow> search_result" where
  "test_rm_configurations_exhaustively ts =
     (let total_permutations = 8 * 7 * 6 * 5;
          generated_permutations = 0
      in case for_lt 0 8 rm_T1p1 (ts, generated_permutations, []) of
           Return r \<Rightarrow> r
         | Next (ts, generated_permutations, out) \<Rightarrow>
             (if generated_permutations = total_permutations then Inr (0, ts)
              else Inl (Assertion_failed ''generated_permutations == total_permutations''),
              out))"

text \<open>
  The priorities in the order in which the loops of
  \<^verbatim>\<open>test_all_configurations_exhaustively\<close> choose them, and in the order of
  \<^verbatim>\<open>test_rm_configurations_exhaustively\<close>.
\<close>

definition slots_all :: "taskset_t \<Rightarrow> int list" where
  "slots_all ts =
     [phase_2_prio (tasks ts 0), phase_2_prio (tasks ts 1), phase_2_prio (tasks ts 2),
      phase_2_prio (tasks ts 3), phase_1_prio (tasks ts 0), phase_1_prio (tasks ts 1),
      phase_1_prio (tasks ts 2), phase_1_prio (tasks ts 3)]"

definition slots_rm :: "taskset_t \<Rightarrow> int list" where
  "slots_rm ts =
     [phase_1_prio (tasks ts 0), phase_1_prio (tasks ts 1), phase_1_prio (tasks ts 2),
      phase_1_prio (tasks ts 3), phase_2_prio (tasks ts 0), phase_2_prio (tasks ts 1),
      phase_2_prio (tasks ts 2), phase_2_prio (tasks ts 3)]"

text \<open>The table of the priorities chosen in these orders.\<close>

definition table_all :: "int list \<Rightarrow> (int \<times> int) list" where
  "table_all ch = [(ch ! 4, ch ! 0), (ch ! 5, ch ! 1), (ch ! 6, ch ! 2), (ch ! 7, ch ! 3)]"

definition table_rm :: "int list \<Rightarrow> (int \<times> int) list" where
  "table_rm ch = [(ch ! 0, ch ! 4), (ch ! 1, ch ! 5), (ch ! 2, ch ! 6), (ch ! 3, ch ! 7)]"

text \<open>The first priorities of the task set are the chosen ones.\<close>

definition chosen :: "(taskset_t \<Rightarrow> int list) \<Rightarrow> int list \<Rightarrow> taskset_t \<Rightarrow> bool" where
  "chosen slots ch ts = (take (length ch) (slots ts) = ch)"

text \<open>
  All the ways to go on from the chosen priorities with \<open>n\<close> more values from 0 to 7,
  each different from the ones before it, in the order of the loops.
\<close>

fun perms_from :: "nat \<Rightarrow> int list \<Rightarrow> int list list" where
  "perms_from 0 ch = [ch]"
| "perms_from (Suc n) ch =
     concat (map (\<lambda>v. if v \<in> set ch then [] else perms_from n (ch @ [v])) [0..7])"

text \<open>
  The same after \<open>n\<close> more increasing values, from \<open>lo\<close> on, for the phase 1 priorities.
\<close>

fun rm_from :: "nat \<Rightarrow> int list \<Rightarrow> int \<Rightarrow> int list list" where
  "rm_from 0 ch lo = perms_from 4 ch"
| "rm_from (Suc n) ch lo = concat (map (\<lambda>v. rm_from n (ch @ [v]) (v + 1)) [lo..7])"

text \<open>
  A loop body that, whenever it goes on to the next pass, has printed the tables \<open>E v\<close>
  and counted them.
\<close>

definition exhausts ::
  "(taskset_t \<Rightarrow> bool) \<Rightarrow> (int \<Rightarrow> search_state \<Rightarrow> (search_result, search_state) flow) \<Rightarrow>
   (int \<Rightarrow> (int \<times> int) list list) \<Rightarrow> bool" where
  "exhausts I body E =
     (\<forall>v ts g out s'. I ts \<longrightarrow> body v (ts, g, out) = Next s' \<longrightarrow>
        (\<exists>ts'. s' = (ts', g + int (length (E v)), out @ E v) \<and> I ts'))"

lemma exhaustsD:
  "exhausts I body E \<Longrightarrow> I ts \<Longrightarrow> body v (ts, g, out) = Next s' \<Longrightarrow>
   \<exists>ts'. s' = (ts', g + int (length (E v)), out @ E v) \<and> I ts'"
  unfolding exhausts_def by fast

lemma for_lt_exhausts:
  "exhausts I body E \<Longrightarrow> I ts \<Longrightarrow> for_lt lo hi body (ts, g, out) = Next s' \<Longrightarrow>
    \<exists>ts'. s' = (ts', g + int (length (concat (map E [lo..hi - 1]))),
               out @ concat (map E [lo..hi - 1])) \<and> I ts'"
proof (induction lo hi body "(ts, g, out)" arbitrary: ts g out rule: for_lt.induct)
  case (1 v hi body ts g out)
  show ?case
  proof (cases "v < hi")
    case False
    then have "[v..hi - 1] = []" by simp
    with False "1.prems" show ?thesis
      by (subst (asm) for_lt.simps) auto
  next
    case True
    then have up: "[v..hi - 1] = v # [v + 1..hi - 1]"
      by (intro upto_rec1) simp
    from True "1.prems"(3) obtain s1 where b: "body v (ts, g, out) = Next s1"
      and rec: "for_lt (v + 1) hi body s1 = Next s'"
      by (subst (asm) for_lt.simps) (simp split: flow.splits)
    from exhaustsD [OF "1.prems"(1,2) b] obtain ts1
      where s1: "s1 = (ts1, g + int (length (E v)), out @ E v)" and I1: "I ts1"
      by auto
    from "1.hyps" [OF True b [unfolded s1] "1.prems"(1) I1 rec [unfolded s1]]
    show ?thesis
      unfolding up by (auto simp: algebra_simps)
  qed
qed

lemma chosen_append: "chosen slots (ch @ [v]) ts \<Longrightarrow> chosen slots ch ts"
proof -
  assume "chosen slots (ch @ [v]) ts"
  then have "take (Suc (length ch)) (slots ts) = ch @ [v]" by (simp add: chosen_def)
  then have "take (length ch) (take (Suc (length ch)) (slots ts)) = take (length ch) (ch @ [v])"
    by simp
  then show ?thesis by (simp add: chosen_def min_def)
qed

lemma perms_from_Suc_tables:
  "concat (map (\<lambda>x. if x \<in> set ch then [] else map f (perms_from n (ch @ [x]))) [0..7]) =
   map f (perms_from (Suc n) ch)"
proof -
  have "(\<lambda>x. if x \<in> set ch then [] else map f (perms_from n (ch @ [x]))) =
        map f \<circ> (\<lambda>x. if x \<in> set ch then [] else perms_from n (ch @ [x]))"
    by (rule ext) simp
  then show ?thesis
    by (simp only: perms_from.simps map_concat map_map)
qed

lemma level_exhausts:
  assumes inner: "\<And>v. v \<notin> set ch \<Longrightarrow>
      exhausts (chosen slots (ch @ [v])) (inner v)
        (\<lambda>x. if x \<in> set (ch @ [v]) then [] else map f (perms_from n ((ch @ [v]) @ [x])))"
    and body: "\<And>v ts g out. body v (ts, g, out) =
      (if v \<in> set ch then Next (ts, g, out)
       else for_lt 0 8 (inner v) (setter ts v, g, out))"
    and setter: "\<And>ts v. chosen slots ch ts \<Longrightarrow> chosen slots (ch @ [v]) (setter ts v)"
  shows "exhausts (chosen slots ch) body
      (\<lambda>v. if v \<in> set ch then [] else map f (perms_from (Suc n) (ch @ [v])))"
  unfolding exhausts_def
proof (intro allI impI)
  fix v ts g out s'
  assume I: "chosen slots ch ts" and b: "body v (ts, g, out) = Next s'"
  let ?E = "\<lambda>v. if v \<in> set ch then [] else map f (perms_from (Suc n) (ch @ [v]))"
  show "\<exists>ts'. s' = (ts', g + int (length (?E v)), out @ ?E v) \<and> chosen slots ch ts'"
  proof (cases "v \<in> set ch")
    case True
    with b I show ?thesis by (auto simp: body)
  next
    case False
    with b have run: "for_lt 0 8 (inner v) (setter ts v, g, out) = Next s'"
      by (simp add: body)
    have seven: "(8::int) - 1 = 7" by simp
    from for_lt_exhausts [OF inner [OF False] setter [OF I] run]
    obtain ts' where "s' = (ts', g + int (length (map f (perms_from (Suc n) (ch @ [v])))),
        out @ map f (perms_from (Suc n) (ch @ [v])))" and "chosen slots (ch @ [v]) ts'"
      unfolding seven perms_from_Suc_tables by blast
    with False show ?thesis
      by (auto dest: chosen_append)
  qed
qed

lemma test_all_keeps:
  "test_all_phase_change_points ts = Inr (r, ts') \<Longrightarrow> keeps {0, 1, 2, 3} ts ts'"
  using loop_T1pcp_keeps [of ts 0 0]
  by (auto simp: test_all_phase_change_points_def Let_def split: flow.splits if_splits)

lemma keeps_slots_all: "keeps K ts ts' \<Longrightarrow> slots_all ts' = slots_all ts"
  by (simp add: keeps_def base_def slots_all_def)

lemma keeps_slots_rm: "keeps K ts ts' \<Longrightarrow> slots_rm ts' = slots_rm ts"
  by (simp add: keeps_def base_def slots_rm_def)

lemma innermost_exhausts:
  assumes body: "\<And>v ts g out. body v (ts, g, out) =
      (if v \<in> set ch then Next (ts, g, out)
       else (let ts = setter ts v; g = g + 1; out = out @ [prio_table ts]
             in case test_all_phase_change_points ts of
                  Inl e \<Rightarrow> Return (Inl e, out)
                | Inr (r, ts) \<Rightarrow>
                    if r \<noteq> 0 then Return (Inr (1, ts), out) else Next (ts, g, out)))"
    and setter: "\<And>ts v. chosen slots ch ts \<Longrightarrow> chosen slots (ch @ [v]) (setter ts v)"
    and table: "\<And>ts. prio_table ts = f (slots ts)"
    and len: "length ch = 7"
    and slots_len: "\<And>ts. length (slots ts) = 8"
    and kept: "\<And>K ts ts'. keeps K ts ts' \<Longrightarrow> slots ts' = slots ts"
  shows "exhausts (chosen slots ch) body
      (\<lambda>v. if v \<in> set ch then [] else map f (perms_from 0 (ch @ [v])))"
  unfolding exhausts_def
proof (intro allI impI)
  fix v ts g out s'
  assume I: "chosen slots ch ts" and b: "body v (ts, g, out) = Next s'"
  let ?E = "\<lambda>v. if v \<in> set ch then [] else map f (perms_from 0 (ch @ [v]))"
  show "\<exists>ts'. s' = (ts', g + int (length (?E v)), out @ ?E v) \<and> chosen slots ch ts'"
  proof (cases "v \<in> set ch")
    case True
    with b I show ?thesis by (auto simp: body)
  next
    case False
    let ?ts = "setter ts v"
    have ch1: "chosen slots (ch @ [v]) ?ts" by (rule setter [OF I])
    then have sl: "slots ?ts = ch @ [v]"
      using len slots_len [of ?ts] by (simp add: chosen_def)
    from b False obtain ts2 where t: "test_all_phase_change_points ?ts = Inr (0, ts2)"
      and s': "s' = (ts2, g + 1, out @ [prio_table ?ts])"
      by (auto simp: body Let_def split: sum.splits if_splits)
    have "slots ts2 = slots ?ts"
      by (rule kept [OF test_all_keeps [OF t]])
    with ch1 have "chosen slots (ch @ [v]) ts2" by (simp add: chosen_def)
    then have "chosen slots ch ts2" by (rule chosen_append)
    with s' False show ?thesis
      by (simp add: table sl)
  qed
qed

lemma upt_NUM_TASKS: "[0..<NUM_TASKS] = [0, 1, 2, 3]"
  unfolding NUM_TASKS_def by code_simp

lemma skip_chain0: "(if v \<in> set [] then X else Y) = Y"
  by simp

lemma skip_chain1:
  "(if v = a then X else Y) =
   (if v \<in> set [a] then X else Y)"
  by simp

lemma skip_chain2:
  "(if v = a then X else if v = b then X else Y) =
   (if v \<in> set [a, b] then X else Y)"
  by simp

lemma skip_chain3:
  "(if v = a then X else if v = b then X else if v = c then X else Y) =
   (if v \<in> set [a, b, c] then X else Y)"
  by simp

lemma skip_chain4:
  "(if v = a then X else if v = b then X else if v = c then X else if v = d then X else Y) =
   (if v \<in> set [a, b, c, d] then X else Y)"
  by simp

lemma skip_chain5:
  "(if v = a then X else if v = b then X else if v = c then X else if v = d then X else if v = e then X else Y) =
   (if v \<in> set [a, b, c, d, e] then X else Y)"
  by simp

lemma skip_chain6:
  "(if v = a then X else if v = b then X else if v = c then X else if v = d then X else if v = e then X else if v = f then X else Y) =
   (if v \<in> set [a, b, c, d, e, f] then X else Y)"
  by simp

lemma skip_chain7:
  "(if v = a then X else if v = b then X else if v = c then X else if v = d then X else if v = e then X else if v = f then X else if v = h then X else Y) =
   (if v \<in> set [a, b, c, d, e, f, h] then X else Y)"
  by simp

lemma all_T4p1_exhausts:
  "exhausts (chosen slots_all [a, b, c, d, e, f, h]) (all_T4p1 a b c d e f h)
     (\<lambda>v. if v \<in> set [a, b, c, d, e, f, h] then [] else map table_all (perms_from 0 ([a, b, c, d, e, f, h] @ [v])))"
proof (rule innermost_exhausts [where setter = "\<lambda>ts v. set_p1 ts 3 v"])
  show "all_T4p1 a b c d e f h v (ts, g, out) =
      (if v \<in> set [a, b, c, d, e, f, h] then Next (ts, g, out)
       else (let ts = set_p1 ts 3 v; g = g + 1; out = out @ [prio_table ts]
             in case test_all_phase_change_points ts of
                  Inl e \<Rightarrow> Return (Inl e, out)
                | Inr (r, ts) \<Rightarrow>
                    if r \<noteq> 0 then Return (Inr (1, ts), out) else Next (ts, g, out)))"
    for v ts g out
    by (simp only: all_T4p1_def prod.case skip_chain7)
  show "chosen slots_all [a, b, c, d, e, f, h] ts \<Longrightarrow> chosen slots_all ([a, b, c, d, e, f, h] @ [v]) (set_p1 ts 3 v)" for ts v
    by (simp add: chosen_def slots_all_def set_p1_def)
  show "prio_table ts = table_all (slots_all ts)" for ts
    by (simp add: prio_table_def table_all_def slots_all_def upt_NUM_TASKS)
  show "length [a, b, c, d, e, f, h] = 7" by simp
  show "length (slots_all ts) = 8" for ts by (simp add: slots_all_def)
  show "keeps K ts ts' \<Longrightarrow> slots_all ts' = slots_all ts" for K ts ts'
    by (rule keeps_slots_all)
qed

lemma all_T3p1_exhausts:
  "exhausts (chosen slots_all [a, b, c, d, e, f]) (all_T3p1 a b c d e f)
     (\<lambda>v. if v \<in> set [a, b, c, d, e, f] then [] else map table_all (perms_from (Suc 0) ([a, b, c, d, e, f] @ [v])))"
proof (rule level_exhausts [where inner = "all_T4p1 a b c d e f" and setter = "\<lambda>ts v. set_p1 ts 2 v"])
  show "exhausts (chosen slots_all ([a, b, c, d, e, f] @ [v])) (all_T4p1 a b c d e f v)
      (\<lambda>x. if x \<in> set ([a, b, c, d, e, f] @ [v]) then []
           else map table_all (perms_from 0 (([a, b, c, d, e, f] @ [v]) @ [x])))" for v
    using all_T4p1_exhausts [of a b c d e f v] by (simp add: eval_nat_numeral cong: if_cong del: perms_from.simps rm_from.simps)
  show "all_T3p1 a b c d e f v (ts, g, out) =
      (if v \<in> set [a, b, c, d, e, f] then Next (ts, g, out)
       else for_lt 0 8 (all_T4p1 a b c d e f v) (set_p1 ts 2 v, g, out))" for v ts g out
    by (simp only: all_T3p1_def prod.case skip_chain6)
  show "chosen slots_all [a, b, c, d, e, f] ts \<Longrightarrow> chosen slots_all ([a, b, c, d, e, f] @ [v]) (set_p1 ts 2 v)" for ts v
    by (simp add: chosen_def slots_all_def set_p1_def)
qed

lemma all_T2p1_exhausts:
  "exhausts (chosen slots_all [a, b, c, d, e]) (all_T2p1 a b c d e)
     (\<lambda>v. if v \<in> set [a, b, c, d, e] then [] else map table_all (perms_from (Suc 1) ([a, b, c, d, e] @ [v])))"
proof (rule level_exhausts [where inner = "all_T3p1 a b c d e" and setter = "\<lambda>ts v. set_p1 ts 1 v"])
  show "exhausts (chosen slots_all ([a, b, c, d, e] @ [v])) (all_T3p1 a b c d e v)
      (\<lambda>x. if x \<in> set ([a, b, c, d, e] @ [v]) then []
           else map table_all (perms_from 1 (([a, b, c, d, e] @ [v]) @ [x])))" for v
    using all_T3p1_exhausts [of a b c d e v] by (simp add: eval_nat_numeral cong: if_cong del: perms_from.simps rm_from.simps)
  show "all_T2p1 a b c d e v (ts, g, out) =
      (if v \<in> set [a, b, c, d, e] then Next (ts, g, out)
       else for_lt 0 8 (all_T3p1 a b c d e v) (set_p1 ts 1 v, g, out))" for v ts g out
    by (simp only: all_T2p1_def prod.case skip_chain5)
  show "chosen slots_all [a, b, c, d, e] ts \<Longrightarrow> chosen slots_all ([a, b, c, d, e] @ [v]) (set_p1 ts 1 v)" for ts v
    by (simp add: chosen_def slots_all_def set_p1_def)
qed

lemma all_T1p1_exhausts:
  "exhausts (chosen slots_all [a, b, c, d]) (all_T1p1 a b c d)
     (\<lambda>v. if v \<in> set [a, b, c, d] then [] else map table_all (perms_from (Suc 2) ([a, b, c, d] @ [v])))"
proof (rule level_exhausts [where inner = "all_T2p1 a b c d" and setter = "\<lambda>ts v. set_p1 ts 0 v"])
  show "exhausts (chosen slots_all ([a, b, c, d] @ [v])) (all_T2p1 a b c d v)
      (\<lambda>x. if x \<in> set ([a, b, c, d] @ [v]) then []
           else map table_all (perms_from 2 (([a, b, c, d] @ [v]) @ [x])))" for v
    using all_T2p1_exhausts [of a b c d v] by (simp add: eval_nat_numeral cong: if_cong del: perms_from.simps rm_from.simps)
  show "all_T1p1 a b c d v (ts, g, out) =
      (if v \<in> set [a, b, c, d] then Next (ts, g, out)
       else for_lt 0 8 (all_T2p1 a b c d v) (set_p1 ts 0 v, g, out))" for v ts g out
    by (simp only: all_T1p1_def prod.case skip_chain4)
  show "chosen slots_all [a, b, c, d] ts \<Longrightarrow> chosen slots_all ([a, b, c, d] @ [v]) (set_p1 ts 0 v)" for ts v
    by (simp add: chosen_def slots_all_def set_p1_def)
qed

lemma all_T4p2_exhausts:
  "exhausts (chosen slots_all [a, b, c]) (all_T4p2 a b c)
     (\<lambda>v. if v \<in> set [a, b, c] then [] else map table_all (perms_from (Suc 3) ([a, b, c] @ [v])))"
proof (rule level_exhausts [where inner = "all_T1p1 a b c" and setter = "\<lambda>ts v. set_p2 ts 3 v"])
  show "exhausts (chosen slots_all ([a, b, c] @ [v])) (all_T1p1 a b c v)
      (\<lambda>x. if x \<in> set ([a, b, c] @ [v]) then []
           else map table_all (perms_from 3 (([a, b, c] @ [v]) @ [x])))" for v
    using all_T1p1_exhausts [of a b c v] by (simp add: eval_nat_numeral cong: if_cong del: perms_from.simps rm_from.simps)
  show "all_T4p2 a b c v (ts, g, out) =
      (if v \<in> set [a, b, c] then Next (ts, g, out)
       else for_lt 0 8 (all_T1p1 a b c v) (set_p2 ts 3 v, g, out))" for v ts g out
    by (simp only: all_T4p2_def prod.case skip_chain3)
  show "chosen slots_all [a, b, c] ts \<Longrightarrow> chosen slots_all ([a, b, c] @ [v]) (set_p2 ts 3 v)" for ts v
    by (simp add: chosen_def slots_all_def set_p2_def)
qed

lemma all_T3p2_exhausts:
  "exhausts (chosen slots_all [a, b]) (all_T3p2 a b)
     (\<lambda>v. if v \<in> set [a, b] then [] else map table_all (perms_from (Suc 4) ([a, b] @ [v])))"
proof (rule level_exhausts [where inner = "all_T4p2 a b" and setter = "\<lambda>ts v. set_p2 ts 2 v"])
  show "exhausts (chosen slots_all ([a, b] @ [v])) (all_T4p2 a b v)
      (\<lambda>x. if x \<in> set ([a, b] @ [v]) then []
           else map table_all (perms_from 4 (([a, b] @ [v]) @ [x])))" for v
    using all_T4p2_exhausts [of a b v] by (simp add: eval_nat_numeral cong: if_cong del: perms_from.simps rm_from.simps)
  show "all_T3p2 a b v (ts, g, out) =
      (if v \<in> set [a, b] then Next (ts, g, out)
       else for_lt 0 8 (all_T4p2 a b v) (set_p2 ts 2 v, g, out))" for v ts g out
    by (simp only: all_T3p2_def prod.case skip_chain2)
  show "chosen slots_all [a, b] ts \<Longrightarrow> chosen slots_all ([a, b] @ [v]) (set_p2 ts 2 v)" for ts v
    by (simp add: chosen_def slots_all_def set_p2_def)
qed

lemma all_T2p2_exhausts:
  "exhausts (chosen slots_all [a]) (all_T2p2 a)
     (\<lambda>v. if v \<in> set [a] then [] else map table_all (perms_from (Suc 5) ([a] @ [v])))"
proof (rule level_exhausts [where inner = "all_T3p2 a" and setter = "\<lambda>ts v. set_p2 ts 1 v"])
  show "exhausts (chosen slots_all ([a] @ [v])) (all_T3p2 a v)
      (\<lambda>x. if x \<in> set ([a] @ [v]) then []
           else map table_all (perms_from 5 (([a] @ [v]) @ [x])))" for v
    using all_T3p2_exhausts [of a v] by (simp add: eval_nat_numeral cong: if_cong del: perms_from.simps rm_from.simps)
  show "all_T2p2 a v (ts, g, out) =
      (if v \<in> set [a] then Next (ts, g, out)
       else for_lt 0 8 (all_T3p2 a v) (set_p2 ts 1 v, g, out))" for v ts g out
    by (simp only: all_T2p2_def prod.case skip_chain1)
  show "chosen slots_all [a] ts \<Longrightarrow> chosen slots_all ([a] @ [v]) (set_p2 ts 1 v)" for ts v
    by (simp add: chosen_def slots_all_def set_p2_def)
qed

lemma all_T1p2_exhausts:
  "exhausts (chosen slots_all []) (all_T1p2)
     (\<lambda>v. if v \<in> set [] then [] else map table_all (perms_from (Suc 6) ([] @ [v])))"
proof (rule level_exhausts [where inner = "all_T2p2" and setter = "\<lambda>ts v. set_p2 ts 0 v"])
  show "exhausts (chosen slots_all ([] @ [v])) (all_T2p2 v)
      (\<lambda>x. if x \<in> set ([] @ [v]) then []
           else map table_all (perms_from 6 (([] @ [v]) @ [x])))" for v
    using all_T2p2_exhausts [of  v] by (simp add: eval_nat_numeral cong: if_cong del: perms_from.simps rm_from.simps)
  show "all_T1p2 v (ts, g, out) =
      (if v \<in> set [] then Next (ts, g, out)
       else for_lt 0 8 (all_T2p2 v) (set_p2 ts 0 v, g, out))" for v ts g out
    by (simp only: all_T1p2_def prod.case skip_chain0)
  show "chosen slots_all [] ts \<Longrightarrow> chosen slots_all ([] @ [v]) (set_p2 ts 0 v)" for ts v
    by (simp add: chosen_def slots_all_def set_p2_def)
qed


lemma rm_from_Suc_tables:
  "concat (map (\<lambda>x. map f (rm_from n (ch @ [x]) (x + 1))) [lo..7]) =
   map f (rm_from (Suc n) ch lo)"
proof -
  have "(\<lambda>x. map f (rm_from n (ch @ [x]) (x + 1))) =
        map f \<circ> (\<lambda>x. rm_from n (ch @ [x]) (x + 1))"
    by (rule ext) simp
  then show ?thesis
    by (simp only: rm_from.simps map_concat map_map)
qed

lemma level_rm_exhausts:
  assumes inner: "\<And>v. exhausts (chosen slots (ch @ [v])) (inner v)
        (\<lambda>x. map f (rm_from n ((ch @ [v]) @ [x]) (x + 1)))"
    and body: "\<And>v ts g out. body v (ts, g, out) =
      for_lt (v + 1) 8 (inner v) (setter ts v, g, out)"
    and setter: "\<And>ts v. chosen slots ch ts \<Longrightarrow> chosen slots (ch @ [v]) (setter ts v)"
  shows "exhausts (chosen slots ch) body (\<lambda>v. map f (rm_from (Suc n) (ch @ [v]) (v + 1)))"
  unfolding exhausts_def
proof (intro allI impI)
  fix v ts g out s'
  assume I: "chosen slots ch ts" and b: "body v (ts, g, out) = Next s'"
  from b have run: "for_lt (v + 1) 8 (inner v) (setter ts v, g, out) = Next s'"
    by (simp add: body)
  have seven: "(8::int) - 1 = 7" by simp
  from for_lt_exhausts [OF inner setter [OF I] run]
  obtain ts' where "s' = (ts', g + int (length (map f (rm_from (Suc n) (ch @ [v]) (v + 1)))),
      out @ map f (rm_from (Suc n) (ch @ [v]) (v + 1)))" and "chosen slots (ch @ [v]) ts'"
    unfolding seven rm_from_Suc_tables by blast
  then show "\<exists>ts'. s' = (ts', g + int (length (map f (rm_from (Suc n) (ch @ [v]) (v + 1)))),
      out @ map f (rm_from (Suc n) (ch @ [v]) (v + 1))) \<and> chosen slots ch ts'"
    by (auto dest: chosen_append)
qed

lemma level_rm_last_exhausts:
  assumes inner: "\<And>v. exhausts (chosen slots (ch @ [v])) (inner v)
        (\<lambda>x. if x \<in> set (ch @ [v]) then [] else map f (perms_from 3 ((ch @ [v]) @ [x])))"
    and body: "\<And>v ts g out. body v (ts, g, out) =
      for_lt 0 8 (inner v) (setter ts v, g, out)"
    and setter: "\<And>ts v. chosen slots ch ts \<Longrightarrow> chosen slots (ch @ [v]) (setter ts v)"
  shows "exhausts (chosen slots ch) body (\<lambda>v. map f (rm_from 0 (ch @ [v]) (v + 1)))"
  unfolding exhausts_def
proof (intro allI impI)
  fix v ts g out s'
  assume I: "chosen slots ch ts" and b: "body v (ts, g, out) = Next s'"
  from b have run: "for_lt 0 8 (inner v) (setter ts v, g, out) = Next s'"
    by (simp add: body)
  have seven: "(8::int) - 1 = 7" by simp
  have four: "rm_from 0 (ch @ [v]) (v + 1) = perms_from (Suc 3) (ch @ [v])"
    by (simp del: perms_from.simps)
  from for_lt_exhausts [OF inner setter [OF I] run]
  obtain ts' where "s' = (ts', g + int (length (map f (perms_from (Suc 3) (ch @ [v])))),
      out @ map f (perms_from (Suc 3) (ch @ [v])))" and "chosen slots (ch @ [v]) ts'"
    unfolding seven perms_from_Suc_tables by blast
  then show "\<exists>ts'. s' = (ts', g + int (length (map f (rm_from 0 (ch @ [v]) (v + 1)))),
      out @ map f (rm_from 0 (ch @ [v]) (v + 1))) \<and> chosen slots ch ts'"
    unfolding four by (auto dest: chosen_append)
qed

lemma rm_T4p2_exhausts:
  "exhausts (chosen slots_rm [a, b, c, d, e, f, h]) (rm_T4p2 a b c d e f h)
     (\<lambda>v. if v \<in> set [a, b, c, d, e, f, h] then [] else map table_rm (perms_from 0 ([a, b, c, d, e, f, h] @ [v])))"
proof (rule innermost_exhausts [where setter = "\<lambda>ts v. set_p2 ts 3 v"])
  show "rm_T4p2 a b c d e f h v (ts, g, out) =
      (if v \<in> set [a, b, c, d, e, f, h] then Next (ts, g, out)
       else (let ts = set_p2 ts 3 v; g = g + 1; out = out @ [prio_table ts]
             in case test_all_phase_change_points ts of
                  Inl e \<Rightarrow> Return (Inl e, out)
                | Inr (r, ts) \<Rightarrow>
                    if r \<noteq> 0 then Return (Inr (1, ts), out) else Next (ts, g, out)))"
    for v ts g out
    by (simp only: rm_T4p2_def prod.case skip_chain7)
  show "chosen slots_rm [a, b, c, d, e, f, h] ts \<Longrightarrow> chosen slots_rm ([a, b, c, d, e, f, h] @ [v]) (set_p2 ts 3 v)" for ts v
    by (simp add: chosen_def slots_rm_def set_p2_def)
  show "prio_table ts = table_rm (slots_rm ts)" for ts
    by (simp add: prio_table_def table_rm_def slots_rm_def upt_NUM_TASKS)
  show "length [a, b, c, d, e, f, h] = 7" by simp
  show "length (slots_rm ts) = 8" for ts by (simp add: slots_rm_def)
  show "keeps K ts ts' \<Longrightarrow> slots_rm ts' = slots_rm ts" for K ts ts'
    by (rule keeps_slots_rm)
qed

lemma rm_T3p2_exhausts:
  "exhausts (chosen slots_rm [a, b, c, d, e, f]) (rm_T3p2 a b c d e f)
     (\<lambda>v. if v \<in> set [a, b, c, d, e, f] then [] else map table_rm (perms_from (Suc 0) ([a, b, c, d, e, f] @ [v])))"
proof (rule level_exhausts [where inner = "rm_T4p2 a b c d e f" and setter = "\<lambda>ts v. set_p2 ts 2 v"])
  show "exhausts (chosen slots_rm ([a, b, c, d, e, f] @ [v])) (rm_T4p2 a b c d e f v)
      (\<lambda>x. if x \<in> set ([a, b, c, d, e, f] @ [v]) then []
           else map table_rm (perms_from 0 (([a, b, c, d, e, f] @ [v]) @ [x])))" for v
    using rm_T4p2_exhausts [of a b c d e f v] by (simp add: eval_nat_numeral cong: if_cong del: perms_from.simps rm_from.simps)
  show "rm_T3p2 a b c d e f v (ts, g, out) =
      (if v \<in> set [a, b, c, d, e, f] then Next (ts, g, out)
       else for_lt 0 8 (rm_T4p2 a b c d e f v) (set_p2 ts 2 v, g, out))" for v ts g out
    by (simp only: rm_T3p2_def prod.case skip_chain6)
  show "chosen slots_rm [a, b, c, d, e, f] ts \<Longrightarrow> chosen slots_rm ([a, b, c, d, e, f] @ [v]) (set_p2 ts 2 v)" for ts v
    by (simp add: chosen_def slots_rm_def set_p2_def)
qed

lemma rm_T2p2_exhausts:
  "exhausts (chosen slots_rm [a, b, c, d, e]) (rm_T2p2 a b c d e)
     (\<lambda>v. if v \<in> set [a, b, c, d, e] then [] else map table_rm (perms_from (Suc 1) ([a, b, c, d, e] @ [v])))"
proof (rule level_exhausts [where inner = "rm_T3p2 a b c d e" and setter = "\<lambda>ts v. set_p2 ts 1 v"])
  show "exhausts (chosen slots_rm ([a, b, c, d, e] @ [v])) (rm_T3p2 a b c d e v)
      (\<lambda>x. if x \<in> set ([a, b, c, d, e] @ [v]) then []
           else map table_rm (perms_from 1 (([a, b, c, d, e] @ [v]) @ [x])))" for v
    using rm_T3p2_exhausts [of a b c d e v] by (simp add: eval_nat_numeral cong: if_cong del: perms_from.simps rm_from.simps)
  show "rm_T2p2 a b c d e v (ts, g, out) =
      (if v \<in> set [a, b, c, d, e] then Next (ts, g, out)
       else for_lt 0 8 (rm_T3p2 a b c d e v) (set_p2 ts 1 v, g, out))" for v ts g out
    by (simp only: rm_T2p2_def prod.case skip_chain5)
  show "chosen slots_rm [a, b, c, d, e] ts \<Longrightarrow> chosen slots_rm ([a, b, c, d, e] @ [v]) (set_p2 ts 1 v)" for ts v
    by (simp add: chosen_def slots_rm_def set_p2_def)
qed

lemma rm_T1p2_exhausts:
  "exhausts (chosen slots_rm [a, b, c, d]) (rm_T1p2 a b c d)
     (\<lambda>v. if v \<in> set [a, b, c, d] then [] else map table_rm (perms_from (Suc 2) ([a, b, c, d] @ [v])))"
proof (rule level_exhausts [where inner = "rm_T2p2 a b c d" and setter = "\<lambda>ts v. set_p2 ts 0 v"])
  show "exhausts (chosen slots_rm ([a, b, c, d] @ [v])) (rm_T2p2 a b c d v)
      (\<lambda>x. if x \<in> set ([a, b, c, d] @ [v]) then []
           else map table_rm (perms_from 2 (([a, b, c, d] @ [v]) @ [x])))" for v
    using rm_T2p2_exhausts [of a b c d v] by (simp add: eval_nat_numeral cong: if_cong del: perms_from.simps rm_from.simps)
  show "rm_T1p2 a b c d v (ts, g, out) =
      (if v \<in> set [a, b, c, d] then Next (ts, g, out)
       else for_lt 0 8 (rm_T2p2 a b c d v) (set_p2 ts 0 v, g, out))" for v ts g out
    by (simp only: rm_T1p2_def prod.case skip_chain4)
  show "chosen slots_rm [a, b, c, d] ts \<Longrightarrow> chosen slots_rm ([a, b, c, d] @ [v]) (set_p2 ts 0 v)" for ts v
    by (simp add: chosen_def slots_rm_def set_p2_def)
qed

lemma rm_T4p1_exhausts:
  "exhausts (chosen slots_rm [a, b, c]) (rm_T4p1 a b c)
     (\<lambda>v. map table_rm (rm_from 0 ([a, b, c] @ [v]) (v + 1)))"
proof (rule level_rm_last_exhausts [where inner = "rm_T1p2 a b c" and setter = "\<lambda>ts v. set_p1 ts 3 v"])
  show "exhausts (chosen slots_rm ([a, b, c] @ [v])) (rm_T1p2 a b c v)
      (\<lambda>x. if x \<in> set ([a, b, c] @ [v]) then [] else map table_rm (perms_from 3 (([a, b, c] @ [v]) @ [x])))" for v
    using rm_T1p2_exhausts [of a b c v] by (simp add: eval_nat_numeral cong: if_cong del: perms_from.simps rm_from.simps)
  show "rm_T4p1 a b c v (ts, g, out) = for_lt 0 8 (rm_T1p2 a b c v) (set_p1 ts 3 v, g, out)" for v ts g out
    by (simp add: rm_T4p1_def)
  show "chosen slots_rm [a, b, c] ts \<Longrightarrow> chosen slots_rm ([a, b, c] @ [v]) (set_p1 ts 3 v)" for ts v
    by (simp add: chosen_def slots_rm_def set_p1_def)
qed

lemma rm_T3p1_exhausts:
  "exhausts (chosen slots_rm [a, b]) (rm_T3p1 a b)
     (\<lambda>v. map table_rm (rm_from (Suc 0) ([a, b] @ [v]) (v + 1)))"
proof (rule level_rm_exhausts [where inner = "rm_T4p1 a b" and setter = "\<lambda>ts v. set_p1 ts 2 v"])
  show "exhausts (chosen slots_rm ([a, b] @ [v])) (rm_T4p1 a b v)
      (\<lambda>x. map table_rm (rm_from 0 (([a, b] @ [v]) @ [x]) (x + 1)))" for v
    using rm_T4p1_exhausts [of a b v] by (simp add: eval_nat_numeral cong: if_cong del: perms_from.simps rm_from.simps)
  show "rm_T3p1 a b v (ts, g, out) = for_lt (v + 1) 8 (rm_T4p1 a b v) (set_p1 ts 2 v, g, out)" for v ts g out
    by (simp add: rm_T3p1_def)
  show "chosen slots_rm [a, b] ts \<Longrightarrow> chosen slots_rm ([a, b] @ [v]) (set_p1 ts 2 v)" for ts v
    by (simp add: chosen_def slots_rm_def set_p1_def)
qed

lemma rm_T2p1_exhausts:
  "exhausts (chosen slots_rm [a]) (rm_T2p1 a)
     (\<lambda>v. map table_rm (rm_from (Suc 1) ([a] @ [v]) (v + 1)))"
proof (rule level_rm_exhausts [where inner = "rm_T3p1 a" and setter = "\<lambda>ts v. set_p1 ts 1 v"])
  show "exhausts (chosen slots_rm ([a] @ [v])) (rm_T3p1 a v)
      (\<lambda>x. map table_rm (rm_from 1 (([a] @ [v]) @ [x]) (x + 1)))" for v
    using rm_T3p1_exhausts [of a v] by (simp add: eval_nat_numeral cong: if_cong del: perms_from.simps rm_from.simps)
  show "rm_T2p1 a v (ts, g, out) = for_lt (v + 1) 8 (rm_T3p1 a v) (set_p1 ts 1 v, g, out)" for v ts g out
    by (simp add: rm_T2p1_def)
  show "chosen slots_rm [a] ts \<Longrightarrow> chosen slots_rm ([a] @ [v]) (set_p1 ts 1 v)" for ts v
    by (simp add: chosen_def slots_rm_def set_p1_def)
qed

lemma rm_T1p1_exhausts:
  "exhausts (chosen slots_rm []) (rm_T1p1)
     (\<lambda>v. map table_rm (rm_from (Suc 2) ([] @ [v]) (v + 1)))"
proof (rule level_rm_exhausts [where inner = "rm_T2p1" and setter = "\<lambda>ts v. set_p1 ts 0 v"])
  show "exhausts (chosen slots_rm ([] @ [v])) (rm_T2p1 v)
      (\<lambda>x. map table_rm (rm_from 2 (([] @ [v]) @ [x]) (x + 1)))" for v
    using rm_T2p1_exhausts [of  v] by (simp add: eval_nat_numeral cong: if_cong del: perms_from.simps rm_from.simps)
  show "rm_T1p1 v (ts, g, out) = for_lt (v + 1) 8 (rm_T2p1 v) (set_p1 ts 0 v, g, out)" for v ts g out
    by (simp add: rm_T1p1_def)
  show "chosen slots_rm [] ts \<Longrightarrow> chosen slots_rm ([] @ [v]) (set_p1 ts 0 v)" for ts v
    by (simp add: chosen_def slots_rm_def set_p1_def)
qed

section \<open>The generated permutations\<close>

lemma length_concat_skip:
  assumes "\<And>v. v \<in> set xs \<Longrightarrow> v \<notin> S \<Longrightarrow> length (F v) = c"
  shows "length (concat (map (\<lambda>v. if v \<in> S then [] else F v) xs)) =
         c * length (filter (\<lambda>v. v \<notin> S) xs)"
  using assms by (induction xs) auto

lemma free_values:
  assumes "distinct ch" and "set ch \<subseteq> {0..7}"
  shows "length (filter (\<lambda>v. v \<notin> set ch) [0..7]) = 8 - length ch"
proof -
  have "length (filter (\<lambda>v. v \<notin> set ch) [0..7]) = card ({v. v \<notin> set ch} \<inter> set [0..7])"
    by (rule distinct_length_filter) simp
  also have "{v. v \<notin> set ch} \<inter> set [0..7] = {0..7} - set ch" by auto
  also have "card ({0..7} - set ch) = card {0..7::int} - card (set ch)"
    using assms(2) by (intro card_Diff_subset) auto
  also have "\<dots> = 8 - length ch"
    using assms(1) by (simp add: distinct_card)
  finally show ?thesis .
qed

lemma length_perms_from:
  "distinct ch \<Longrightarrow> set ch \<subseteq> {0..7} \<Longrightarrow>
   length (perms_from n ch) = (\<Prod>i<n. 8 - length ch - i)"
proof (induction n arbitrary: ch)
  case 0
  show ?case by simp
next
  case (Suc n)
  have "length (perms_from n (ch @ [v])) = (\<Prod>i<n. 8 - length (ch @ [v]) - i)"
    if "v \<in> set [0..7]" "v \<notin> set ch" for v
    using that Suc.prems by (intro Suc.IH) auto
  then have "length (perms_from (Suc n) ch) =
      (\<Prod>i<n. 8 - length ch - 1 - i) * length (filter (\<lambda>v. v \<notin> set ch) [0..7])"
    unfolding perms_from.simps by (intro length_concat_skip) simp
  also have "\<dots> = (8 - length ch) * (\<Prod>i<n. 8 - length ch - Suc i)"
    using Suc.prems by (simp add: free_values)
  also have "\<dots> = (\<Prod>i<Suc n. 8 - length ch - i)"
    by (subst prod.lessThan_Suc_shift) simp
  finally show ?case .
qed

lemma perms_from_prefix: "zs \<in> set (perms_from n ch) \<Longrightarrow> take (length ch) zs = ch"
proof (induction n arbitrary: ch)
  case 0
  then show ?case by simp
next
  case (Suc n)
  then obtain v where "zs \<in> set (perms_from n (ch @ [v]))"
    by (auto split: if_splits)
  from Suc.IH [OF this] have "take (Suc (length ch)) zs = ch @ [v]" by simp
  then have "take (length ch) (take (Suc (length ch)) zs) = take (length ch) (ch @ [v])"
    by simp
  then show ?case by (simp add: min_def)
qed

lemma distinct_concat_map:
  assumes "distinct xs"
    and "\<And>x. x \<in> set xs \<Longrightarrow> distinct (F x)"
    and "\<And>x y. x \<in> set xs \<Longrightarrow> y \<in> set xs \<Longrightarrow> x \<noteq> y \<Longrightarrow> set (F x) \<inter> set (F y) = {}"
  shows "distinct (concat (map F xs))"
  using assms
proof (induction xs)
  case Nil
  show ?case by simp
next
  case (Cons x xs)
  have "set (F x) \<inter> set (F y) = {}" if "y \<in> set xs" for y
    using Cons.prems(3) [of x y] Cons.prems(1) that by auto
  then have "set (F x) \<inter> (\<Union>y\<in>set xs. set (F y)) = {}" by blast
  moreover have "distinct (concat (map F xs))"
    using Cons.prems by (intro Cons.IH) auto
  ultimately show ?case
    using Cons.prems(2) by simp
qed

lemma distinct_perms_from: "distinct (perms_from n ch)"
proof (induction n arbitrary: ch)
  case 0
  show ?case by simp
next
  case (Suc n)
  let ?F = "\<lambda>v. if v \<in> set ch then [] else perms_from n (ch @ [v])"
  have "set (?F x) \<inter> set (?F y) = {}" if "x \<noteq> y" for x y
  proof (rule ccontr)
    assume "\<not> ?thesis"
    then obtain zs where "zs \<in> set (?F x)" "zs \<in> set (?F y)" by blast
    then have "zs \<in> set (perms_from n (ch @ [x]))" "zs \<in> set (perms_from n (ch @ [y]))"
      by (auto split: if_splits)
    then have "ch @ [x] = ch @ [y]"
      using perms_from_prefix [of zs n "ch @ [x]"] perms_from_prefix [of zs n "ch @ [y]"]
      by simp
    with that show False by simp
  qed
  then show ?case
    unfolding perms_from.simps using Suc.IH by (intro distinct_concat_map) auto
qed

lemma set_perms_from:
  "set (perms_from n ch) =
     {ch @ xs | xs. length xs = n \<and> distinct xs \<and> set xs \<subseteq> {0..7} - set ch}"
proof (induction n arbitrary: ch)
  case 0
  show ?case by auto
next
  case (Suc n)
  have "set (perms_from (Suc n) ch) =
      (\<Union>v\<in>{0..7} - set ch. set (perms_from n (ch @ [v])))"
    by (auto split: if_splits)
  also have "\<dots> = (\<Union>v\<in>{0..7} - set ch.
      {(ch @ [v]) @ xs | xs. length xs = n \<and> distinct xs \<and> set xs \<subseteq> {0..7} - set (ch @ [v])})"
    by (simp only: Suc.IH)
  also have "\<dots> = {ch @ xs | xs. length xs = Suc n \<and> distinct xs \<and> set xs \<subseteq> {0..7} - set ch}"
    (is "?L = ?R")
  proof (intro set_eqI iffI)
    fix zs
    assume "zs \<in> ?L"
    then obtain v xs where "v \<in> {0..7} - set ch" "zs = (ch @ [v]) @ xs" "length xs = n"
      "distinct xs" "set xs \<subseteq> {0..7} - set (ch @ [v])"
      by blast
    then have "zs = ch @ (v # xs) \<and> length (v # xs) = Suc n \<and> distinct (v # xs) \<and>
        set (v # xs) \<subseteq> {0..7} - set ch"
      by auto
    then show "zs \<in> ?R" by blast
  next
    fix zs
    assume "zs \<in> ?R"
    then obtain ys where ys: "zs = ch @ ys" "length ys = Suc n" "distinct ys"
      "set ys \<subseteq> {0..7} - set ch"
      by blast
    then obtain v xs where "ys = v # xs" by (cases ys) auto
    with ys have "v \<in> {0..7} - set ch" "zs = (ch @ [v]) @ xs" "length xs = n" "distinct xs"
      "set xs \<subseteq> {0..7} - set (ch @ [v])"
      by auto
    then show "zs \<in> ?L" by blast
  qed
  finally show ?case .
qed

lemma length_perms_from_8: "length (perms_from 8 []) = 40320"
  by (simp add: length_perms_from lessThan_nat_numeral lessThan_Suc)

lemma set_perms_from_8:
  "set (perms_from 8 []) = {xs. length xs = 8 \<and> distinct xs \<and> set xs \<subseteq> {0..7}}"
  by (simp add: set_perms_from)

text \<open>The increasing choices of the phase 1 priorities alone.\<close>

fun inc_from :: "nat \<Rightarrow> int list \<Rightarrow> int \<Rightarrow> int list list" where
  "inc_from 0 ch lo = [ch]"
| "inc_from (Suc n) ch lo = concat (map (\<lambda>v. inc_from n (ch @ [v]) (v + 1)) [lo..7])"

lemma concat_map_concat:
  "concat (map F (concat xss)) = concat (map (\<lambda>xs. concat (map F xs)) xss)"
  by (induction xss) auto

lemma rm_from_inc_from: "rm_from n ch lo = concat (map (perms_from 4) (inc_from n ch lo))"
proof (induction n arbitrary: ch lo)
  case 0
  show ?case by (simp del: perms_from.simps)
next
  case (Suc n)
  show ?case
    by (simp add: Suc.IH concat_map_concat o_def del: perms_from.simps)
qed

lemma inc_from_prefix: "zs \<in> set (inc_from n ch lo) \<Longrightarrow> take (length ch) zs = ch"
proof (induction n arbitrary: ch lo)
  case 0
  then show ?case by simp
next
  case (Suc n)
  then obtain v where "zs \<in> set (inc_from n (ch @ [v]) (v + 1))"
    by auto
  from Suc.IH [OF this] have "take (Suc (length ch)) zs = ch @ [v]" by simp
  then have "take (length ch) (take (Suc (length ch)) zs) = take (length ch) (ch @ [v])"
    by simp
  then show ?case by (simp add: min_def)
qed

lemma distinct_inc_from: "distinct (inc_from n ch lo)"
proof (induction n arbitrary: ch lo)
  case 0
  show ?case by simp
next
  case (Suc n)
  let ?F = "\<lambda>v. inc_from n (ch @ [v]) (v + 1)"
  have "set (?F x) \<inter> set (?F y) = {}" if "x \<noteq> y" for x y
  proof (rule ccontr)
    assume "\<not> ?thesis"
    then obtain zs where "zs \<in> set (?F x)" "zs \<in> set (?F y)" by blast
    then have "ch @ [x] = ch @ [y]"
      using inc_from_prefix [of zs n "ch @ [x]"] inc_from_prefix [of zs n "ch @ [y]"]
      by simp
    with that show False by simp
  qed
  then show ?case
    unfolding inc_from.simps using Suc.IH by (intro distinct_concat_map) auto
qed

lemma set_inc_from:
  "set (inc_from n ch lo) =
     {ch @ xs | xs. length xs = n \<and> sorted_wrt (<) xs \<and> set xs \<subseteq> {lo..7}}"
proof (induction n arbitrary: ch lo)
  case 0
  show ?case by auto
next
  case (Suc n)
  have "set (inc_from (Suc n) ch lo) = (\<Union>v\<in>{lo..7}. set (inc_from n (ch @ [v]) (v + 1)))"
    by auto
  also have "\<dots> = (\<Union>v\<in>{lo..7}.
      {(ch @ [v]) @ xs | xs. length xs = n \<and> sorted_wrt (<) xs \<and> set xs \<subseteq> {v + 1..7}})"
    by (simp only: Suc.IH)
  also have "\<dots> = {ch @ xs | xs. length xs = Suc n \<and> sorted_wrt (<) xs \<and> set xs \<subseteq> {lo..7}}"
    (is "?L = ?R")
  proof (intro set_eqI iffI)
    fix zs
    assume "zs \<in> ?L"
    then obtain v xs where "v \<in> {lo..7}" "zs = (ch @ [v]) @ xs" "length xs = n"
      "sorted_wrt (<) xs" "set xs \<subseteq> {v + 1..7}"
      by blast
    then have "zs = ch @ (v # xs) \<and> length (v # xs) = Suc n \<and> sorted_wrt (<) (v # xs) \<and>
        set (v # xs) \<subseteq> {lo..7}"
      by auto
    then show "zs \<in> ?R" by blast
  next
    fix zs
    assume "zs \<in> ?R"
    then obtain ys where ys: "zs = ch @ ys" "length ys = Suc n" "sorted_wrt (<) ys"
      "set ys \<subseteq> {lo..7}"
      by blast
    then obtain v xs where "ys = v # xs" by (cases ys) auto
    with ys have "v \<in> {lo..7}" "zs = (ch @ [v]) @ xs" "length xs = n" "sorted_wrt (<) xs"
      "set xs \<subseteq> {v + 1..7}"
      by (auto, force+)
    then show "zs \<in> ?L" by blast
  qed
  finally show ?case .
qed

lemma length_inc_from_4: "length (inc_from 4 [] 0) = 70"
  by code_simp

lemma sorted_wrt_less_distinct: "sorted_wrt (<) xs \<Longrightarrow> distinct (xs :: int list)"
  by (induction xs) auto

lemma inc_from_4_props:
  assumes "z \<in> set (inc_from 4 [] 0)"
  shows "length z = 4" "distinct z" "set z \<subseteq> {0..7}" "sorted_wrt (<) z"
  using assms unfolding set_inc_from by (auto dest: sorted_wrt_less_distinct)

lemma length_concat_const:
  "(\<And>x. x \<in> set xs \<Longrightarrow> length (F x) = c) \<Longrightarrow> length (concat (map F xs)) = c * length xs"
  by (induction xs) auto

lemma length_rm_from_4: "length (rm_from 4 [] 0) = 1680"
proof -
  have "length (perms_from 4 z) = 24" if "z \<in> set (inc_from 4 [] 0)" for z
    using inc_from_4_props [OF that]
    by (simp add: length_perms_from lessThan_nat_numeral lessThan_Suc)
  then have "length (concat (map (perms_from 4) (inc_from 4 [] 0))) =
      24 * length (inc_from 4 [] 0)"
    by (rule length_concat_const)
  then show ?thesis
    by (simp only: rm_from_inc_from length_inc_from_4)
qed

lemma distinct_rm_from_4: "distinct (rm_from 4 [] 0)"
  unfolding rm_from_inc_from
proof (rule distinct_concat_map)
  show "distinct (inc_from 4 [] 0)" by (rule distinct_inc_from)
  show "distinct (perms_from 4 x)" for x by (rule distinct_perms_from)
  show "set (perms_from 4 x) \<inter> set (perms_from 4 y) = {}"
    if "x \<in> set (inc_from 4 [] 0)" "y \<in> set (inc_from 4 [] 0)" "x \<noteq> y" for x y
  proof (rule ccontr)
    assume "\<not> ?thesis"
    then obtain zs where "zs \<in> set (perms_from 4 x)" "zs \<in> set (perms_from 4 y)" by blast
    then have "take (length x) zs = x" "take (length y) zs = y"
      by (auto dest: perms_from_prefix)
    with inc_from_4_props(1) [OF that(1)] inc_from_4_props(1) [OF that(2)] that(3)
    show False by simp
  qed
qed

lemma set_rm_from_4:
  "set (rm_from 4 [] 0) =
     {xs. length xs = 8 \<and> distinct xs \<and> set xs \<subseteq> {0..7} \<and> sorted_wrt (<) (take 4 xs)}"
  (is "?L = ?R")
proof (intro set_eqI iffI)
  fix zs
  assume "zs \<in> ?L"
  then obtain z where z: "z \<in> set (inc_from 4 [] 0)" and zs: "zs \<in> set (perms_from 4 z)"
    unfolding rm_from_inc_from by auto
  note p = inc_from_4_props [OF z]
  from zs obtain xs where "zs = z @ xs" "length xs = 4" "distinct xs"
    "set xs \<subseteq> {0..7} - set z"
    unfolding set_perms_from by blast
  with p show "zs \<in> ?R" by auto
next
  fix zs
  assume "zs \<in> ?R"
  then have zs: "length zs = 8" "distinct zs" "set zs \<subseteq> {0..7}" "sorted_wrt (<) (take 4 zs)"
    by auto
  let ?z = "take 4 zs" and ?xs = "drop 4 zs"
  have split: "zs = ?z @ ?xs" by simp
  have "set ?z \<subseteq> {0..7}"
    using zs(3) set_take_subset [of 4 zs] by blast
  with zs have "?z \<in> set (inc_from 4 [] 0)"
    unfolding set_inc_from by auto
  moreover have "distinct ?xs" "length ?xs = 4" using zs by simp_all
  moreover have "set ?xs \<subseteq> {0..7} - set ?z"
  proof -
    have "set ?z \<inter> set ?xs = {}"
      using zs(2) distinct_append [of ?z ?xs] by simp
    moreover have "set ?xs \<subseteq> {0..7}"
      using zs(3) set_drop_subset [of 4 zs] by blast
    ultimately show ?thesis by blast
  qed
  ultimately have "zs \<in> set (perms_from 4 ?z)"
    unfolding set_perms_from using split by blast
  with \<open>?z \<in> set (inc_from 4 [] 0)\<close> show "zs \<in> ?L"
    unfolding rm_from_inc_from by auto
qed

section \<open>The results of the searches\<close>

text \<open>
  What the searches return from inside their loops: 1 when
  \<^verbatim>\<open>test_all_phase_change_points\<close> has found a schedulable configuration, or the failure
  of the assertion of \<^verbatim>\<open>test_all_phase_change_points\<close>.
\<close>

definition found_or_aborted :: "search_result \<Rightarrow> bool" where
  "found_or_aborted r =
     ((\<exists>ts'. fst r = Inr (1, ts')) \<or>
      fst r = Inl (Assertion_failed ''generated_combinations == total_combinations''))"

definition returns_ok ::
  "(int \<Rightarrow> search_state \<Rightarrow> (search_result, search_state) flow) \<Rightarrow> bool" where
  "returns_ok body = (\<forall>v s r. body v s = Return r \<longrightarrow> found_or_aborted r)"

lemma test_all_error:
  "test_all_phase_change_points ts = Inl e \<Longrightarrow>
   e = Assertion_failed ''generated_combinations == total_combinations''"
  by (auto simp: test_all_phase_change_points_def Let_def split: flow.splits if_splits)

lemma for_lt_returns:
  "returns_ok body \<Longrightarrow> for_lt lo hi body s = Return r \<Longrightarrow> found_or_aborted r"
proof (induction lo hi body s rule: for_lt.induct)
  case (1 v hi body s)
  show ?case
  proof (cases "v < hi")
    case False
    with "1.prems" show ?thesis
      by (subst (asm) for_lt.simps) simp
  next
    case True
    show ?thesis
    proof (cases "body v s")
      case (Return r')
      with True "1.prems"(2) have "r' = r"
        by (subst (asm) for_lt.simps) simp
      with Return "1.prems"(1) show ?thesis
        unfolding returns_ok_def by blast
    next
      case (Next s1)
      with True "1.prems"(2) have "for_lt (v + 1) hi body s1 = Return r"
        by (subst (asm) for_lt.simps) simp
      from "1.IH" [OF True Next "1.prems"(1) this] show ?thesis .
    qed
  qed
qed

lemma all_T4p1_returns: "returns_ok (all_T4p1 a b c d e f h)"
  unfolding returns_ok_def all_T4p1_def
  by (auto simp: Let_def found_or_aborted_def split: if_splits sum.splits dest: test_all_error)

lemma all_T3p1_returns: "returns_ok (all_T3p1 a b c d e f)"
  unfolding returns_ok_def all_T3p1_def
  by (auto split: if_splits dest: for_lt_returns [OF all_T4p1_returns])

lemma all_T2p1_returns: "returns_ok (all_T2p1 a b c d e)"
  unfolding returns_ok_def all_T2p1_def
  by (auto split: if_splits dest: for_lt_returns [OF all_T3p1_returns])

lemma all_T1p1_returns: "returns_ok (all_T1p1 a b c d)"
  unfolding returns_ok_def all_T1p1_def
  by (auto split: if_splits dest: for_lt_returns [OF all_T2p1_returns])

lemma all_T4p2_returns: "returns_ok (all_T4p2 a b c)"
  unfolding returns_ok_def all_T4p2_def
  by (auto split: if_splits dest: for_lt_returns [OF all_T1p1_returns])

lemma all_T3p2_returns: "returns_ok (all_T3p2 a b)"
  unfolding returns_ok_def all_T3p2_def
  by (auto split: if_splits dest: for_lt_returns [OF all_T4p2_returns])

lemma all_T2p2_returns: "returns_ok (all_T2p2 a)"
  unfolding returns_ok_def all_T2p2_def
  by (auto split: if_splits dest: for_lt_returns [OF all_T3p2_returns])

lemma all_T1p2_returns: "returns_ok (all_T1p2)"
  unfolding returns_ok_def all_T1p2_def
  by (auto split: if_splits dest: for_lt_returns [OF all_T2p2_returns])

lemma rm_T4p2_returns: "returns_ok (rm_T4p2 a b c d e f h)"
  unfolding returns_ok_def rm_T4p2_def
  by (auto simp: Let_def found_or_aborted_def split: if_splits sum.splits dest: test_all_error)

lemma rm_T3p2_returns: "returns_ok (rm_T3p2 a b c d e f)"
  unfolding returns_ok_def rm_T3p2_def
  by (auto split: if_splits dest: for_lt_returns [OF rm_T4p2_returns])

lemma rm_T2p2_returns: "returns_ok (rm_T2p2 a b c d e)"
  unfolding returns_ok_def rm_T2p2_def
  by (auto split: if_splits dest: for_lt_returns [OF rm_T3p2_returns])

lemma rm_T1p2_returns: "returns_ok (rm_T1p2 a b c d)"
  unfolding returns_ok_def rm_T1p2_def
  by (auto split: if_splits dest: for_lt_returns [OF rm_T2p2_returns])

lemma rm_T4p1_returns: "returns_ok (rm_T4p1 a b c)"
  unfolding returns_ok_def rm_T4p1_def
  by (auto split: if_splits dest: for_lt_returns [OF rm_T1p2_returns])

lemma rm_T3p1_returns: "returns_ok (rm_T3p1 a b)"
  unfolding returns_ok_def rm_T3p1_def
  by (auto split: if_splits dest: for_lt_returns [OF rm_T4p1_returns])

lemma rm_T2p1_returns: "returns_ok (rm_T2p1 a)"
  unfolding returns_ok_def rm_T2p1_def
  by (auto split: if_splits dest: for_lt_returns [OF rm_T3p1_returns])

lemma rm_T1p1_returns: "returns_ok (rm_T1p1)"
  unfolding returns_ok_def rm_T1p1_def
  by (auto split: if_splits dest: for_lt_returns [OF rm_T2p1_returns])

lemma all_loops_exhausted:
  assumes "for_lt 0 8 all_T1p2 (ts, 0, []) = Next (ts', g', out')"
  shows "g' = 40320 \<and> out' = map table_all (perms_from 8 [])"
proof -
  have seven: "(8::int) - 1 = 7" by simp
  have I: "chosen slots_all [] ts" by (simp add: chosen_def)
  from for_lt_exhausts [OF all_T1p2_exhausts I assms]
  have "g' = 0 + int (length (map table_all (perms_from (Suc 7) []))) \<and>
      out' = [] @ map table_all (perms_from (Suc 7) [])"
    unfolding seven perms_from_Suc_tables by simp
  moreover have "perms_from (Suc 7) [] = perms_from 8 []"
    by (simp del: perms_from.simps)
  ultimately show ?thesis
    by (simp add: length_perms_from_8 del: perms_from.simps)
qed

lemma rm_loops_exhausted:
  assumes "for_lt 0 8 rm_T1p1 (ts, 0, []) = Next (ts', g', out')"
  shows "g' = 1680 \<and> out' = map table_rm (rm_from 4 [] 0)"
proof -
  have seven: "(8::int) - 1 = 7" by simp
  have I: "chosen slots_rm [] ts" by (simp add: chosen_def)
  from for_lt_exhausts [OF rm_T1p1_exhausts I assms]
  have "g' = 0 + int (length (map table_rm (rm_from (Suc 3) [] 0))) \<and>
      out' = [] @ map table_rm (rm_from (Suc 3) [] 0)"
    unfolding seven rm_from_Suc_tables by simp
  moreover have "rm_from (Suc 3) [] 0 = rm_from 4 [] 0"
    by (simp del: rm_from.simps)
  ultimately show ?thesis
    by (simp add: length_rm_from_4 del: rm_from.simps)
qed

lemma all_search_result:
  "(case test_all_configurations_exhaustively ts of
      (Inr (r, ts'), out) \<Rightarrow> r = 1 \<or> (r = 0 \<and> out = map table_all (perms_from 8 []))
    | (Inl e, out) \<Rightarrow>
        e = Assertion_failed ''generated_combinations == total_combinations'')"
proof (cases "for_lt 0 8 all_T1p2 (ts, 0, [])")
  case (Return r)
  from for_lt_returns [OF all_T1p2_returns Return] have "found_or_aborted r" .
  moreover from Return have "test_all_configurations_exhaustively ts = r"
    by (simp add: test_all_configurations_exhaustively_def)
  ultimately show ?thesis
    by (auto simp: found_or_aborted_def split: prod.splits sum.splits)
next
  case (Next s)
  obtain ts' g' out' where s: "s = (ts', g', out')" by (cases s)
  from all_loops_exhausted [OF Next [unfolded s]]
  have "g' = 40320" "out' = map table_all (perms_from 8 [])" by simp_all
  with Next s show ?thesis
    by (simp add: test_all_configurations_exhaustively_def del: perms_from.simps)
qed

lemma rm_search_result:
  "(case test_rm_configurations_exhaustively ts of
      (Inr (r, ts'), out) \<Rightarrow> r = 1 \<or> (r = 0 \<and> out = map table_rm (rm_from 4 [] 0))
    | (Inl e, out) \<Rightarrow>
        e = Assertion_failed ''generated_combinations == total_combinations'')"
proof (cases "for_lt 0 8 rm_T1p1 (ts, 0, [])")
  case (Return r)
  from for_lt_returns [OF rm_T1p1_returns Return] have "found_or_aborted r" .
  moreover from Return have "test_rm_configurations_exhaustively ts = r"
    by (simp add: test_rm_configurations_exhaustively_def)
  ultimately show ?thesis
    by (auto simp: found_or_aborted_def split: prod.splits sum.splits)
next
  case (Next s)
  obtain ts' g' out' where s: "s = (ts', g', out')" by (cases s)
  from rm_loops_exhausted [OF Next [unfolded s]]
  have "g' = 1680" "out' = map table_rm (rm_from 4 [] 0)" by simp_all
  with Next s show ?thesis
    by (simp add: test_rm_configurations_exhaustively_def del: rm_from.simps)
qed

lemma list8_eqI:
  assumes "length xs = 8" "length ys = 8"
    and "xs ! 0 = ys ! 0" "xs ! 1 = ys ! 1" "xs ! 2 = ys ! 2" "xs ! 3 = ys ! 3"
    and "xs ! 4 = ys ! 4" "xs ! 5 = ys ! 5" "xs ! 6 = ys ! 6" "xs ! 7 = ys ! 7"
  shows "xs = ys"
proof (rule nth_equalityI)
  show "length xs = length ys" using assms by simp
  fix i
  assume "i < length xs"
  with assms(1) have "i = 0 \<or> i = 1 \<or> i = 2 \<or> i = 3 \<or> i = 4 \<or> i = 5 \<or> i = 6 \<or> i = 7"
    by auto
  with assms show "xs ! i = ys ! i" by auto
qed

lemma distinct_tables_all: "distinct (map table_all (perms_from 8 []))"
proof -
  have "inj_on table_all (set (perms_from 8 []))"
    unfolding set_perms_from_8
    by (intro inj_onI list8_eqI) (simp_all add: table_all_def)
  with distinct_perms_from show ?thesis
    by (simp add: distinct_map del: perms_from.simps)
qed

lemma distinct_tables_rm: "distinct (map table_rm (rm_from 4 [] 0))"
proof -
  have "inj_on table_rm (set (rm_from 4 [] 0))"
    unfolding set_rm_from_4
    by (intro inj_onI list8_eqI) (simp_all add: table_rm_def)
  with distinct_rm_from_4 show ?thesis
    by (simp add: distinct_map del: rm_from.simps)
qed

text \<open>
  Claim C6. \<^verbatim>\<open>test_all_configurations_exhaustively\<close> returns 1, or aborts in the assertion
  of \<^verbatim>\<open>test_all_phase_change_points\<close>, or returns 0; when it returns 0 its own assertion
  has held and the priority tables it has generated are, in this order, the tables of
  \<open>perms_from 8 []\<close>: the 40320 lists of 8 different values from 0 to 7, each generated
  once, the first four values being the phase 2 priorities of the tasks 1 to 4 (the four
  outer loops) and the last four their phase 1 priorities.
  \<^verbatim>\<open>test_rm_configurations_exhaustively\<close> does the same with the tables of
  \<open>rm_from 4 [] 0\<close>: the 1680 such lists whose first four values, here the phase 1
  priorities of the tasks 1 to 4, increase strictly.
\<close>

theorem priority_searches_generate_all_permutations:
  "(case test_all_configurations_exhaustively ts of
      (Inr (r, ts'), out) \<Rightarrow> r = 1 \<or> (r = 0 \<and> out = map table_all (perms_from 8 []))
    | (Inl e, out) \<Rightarrow>
        e = Assertion_failed ''generated_combinations == total_combinations'') \<and>
   length (map table_all (perms_from 8 [])) = 40320 \<and>
   distinct (map table_all (perms_from 8 [])) \<and>
   set (perms_from 8 []) = {xs. length xs = 8 \<and> distinct xs \<and> set xs \<subseteq> {0..7}} \<and>
   (case test_rm_configurations_exhaustively ts of
      (Inr (r, ts'), out) \<Rightarrow> r = 1 \<or> (r = 0 \<and> out = map table_rm (rm_from 4 [] 0))
    | (Inl e, out) \<Rightarrow>
        e = Assertion_failed ''generated_combinations == total_combinations'') \<and>
   length (map table_rm (rm_from 4 [] 0)) = 1680 \<and>
   distinct (map table_rm (rm_from 4 [] 0)) \<and>
   set (rm_from 4 [] 0) =
     {xs. length xs = 8 \<and> distinct xs \<and> set xs \<subseteq> {0..7} \<and> sorted_wrt (<) (take 4 xs)}"
  using all_search_result [of ts] rm_search_result [of ts] distinct_tables_all
    distinct_tables_rm set_perms_from_8 set_rm_from_4 length_perms_from_8 length_rm_from_4
  by (simp del: perms_from.simps rm_from.simps)

section \<open>The counterexample to the optimality of the FDMS policy\<close>

text \<open>
  \<^verbatim>\<open>verify_counterexample_3\<close> runs 134 simulations of up to 187221 time units each. To
  evaluate them by rewriting, the state of a simulation is represented by three counters
  for each task: the time left until its next release, the time left until its phase
  change, and its remaining execution. The representation is proved equal to
  \<^verbatim>\<open>simulate_sas\<close> for the task sets in which the phase 2 priorities of the tasks
  1 to 4 increase and are followed by their phase 1 priorities, which also increase, as
  with the RM+RM priorities of the driver.
\<close>

subsection \<open>The counters\<close>

datatype job = Job nat nat nat

datatype jobs = Jobs job job job job

definition count_down :: "nat \<Rightarrow> nat" where
  "count_down n = n - 1"

fun job_missed :: "job \<Rightarrow> bool" where
  "job_missed (Job d c r) = (d = 0 \<and> 0 < r)"

fun job_release :: "job \<Rightarrow> job \<Rightarrow> job" where
  "job_release K (Job d c r) = (if d = 0 then K else Job d c r)"

fun job_advance :: "job \<Rightarrow> job" where
  "job_advance (Job d c r) = Job (count_down d) (count_down c) r"

fun job_run :: "job \<Rightarrow> job" where
  "job_run (Job d c r) = Job d c (count_down r)"

fun job_urgent :: "job \<Rightarrow> bool" where
  "job_urgent (Job d c r) = (c = 0 \<and> 0 < r)"

fun job_active :: "job \<Rightarrow> bool" where
  "job_active (Job d c r) = (0 < r)"

text \<open>The first of four conditions that holds, as an index.\<close>

fun first_of :: "bool \<Rightarrow> bool \<Rightarrow> bool \<Rightarrow> bool \<Rightarrow> nat option" where
  "first_of True x y z = Some 0"
| "first_of False True y z = Some 1"
| "first_of False False True z = Some 2"
| "first_of False False False True = Some 3"
| "first_of False False False False = None"

fun or_else :: "nat option \<Rightarrow> nat option \<Rightarrow> nat option" where
  "or_else (Some k) y = Some k"
| "or_else None y = y"

text \<open>
  The body of the loop of \<^verbatim>\<open>simulate_sas\<close> on the counters: the first task that missed
  its deadline, the releases (\<open>K\<close> holds the counters of a task that has just been
  released), the selection of the task to execute (the first active task in phase 2,
  otherwise the first active task), its execution for one time unit and the step to the
  next time unit.
\<close>

fun cmiss :: "jobs \<Rightarrow> nat option" where
  "cmiss (Jobs a b c d) = first_of (job_missed a) (job_missed b) (job_missed c) (job_missed d)"

fun crel :: "jobs \<Rightarrow> jobs \<Rightarrow> jobs" where
  "crel (Jobs ka kb kc kd) (Jobs a b c d) = Jobs (job_release ka a) (job_release kb b) (job_release kc c) (job_release kd d)"

fun csel :: "jobs \<Rightarrow> nat option" where
  "csel (Jobs a b c d) =
     or_else (first_of (job_urgent a) (job_urgent b) (job_urgent c) (job_urgent d))
       (first_of (job_active a) (job_active b) (job_active c) (job_active d))"

fun run_at :: "nat option \<Rightarrow> jobs \<Rightarrow> jobs" where
  "run_at None s = s"
| "run_at (Some k) (Jobs a b c d) =
     (if k = 0 then Jobs (job_run a) b c d
      else if k = 1 then Jobs a (job_run b) c d
      else if k = 2 then Jobs a b (job_run c) d
      else if k = 3 then Jobs a b c (job_run d)
      else Jobs a b c d)"

definition cexec :: "jobs \<Rightarrow> jobs" where
  "cexec s = run_at (csel s) s"

fun cadv :: "jobs \<Rightarrow> jobs" where
  "cadv (Jobs a b c d) = Jobs (job_advance a) (job_advance b) (job_advance c) (job_advance d)"

definition ctick :: "jobs \<Rightarrow> jobs \<Rightarrow> jobs" where
  "ctick K s = cadv (cexec (crel K s))"

text \<open>The loop of \<^verbatim>\<open>simulate_sas\<close>, with the number of passes that are left.\<close>

primrec crun :: "nat \<Rightarrow> jobs \<Rightarrow> jobs \<Rightarrow> nat option" where
  "crun 0 K s = None"
| "crun (Suc n) K s =
     (case cmiss s of Some k \<Rightarrow> Some k | None \<Rightarrow> crun n K (ctick K s))"

definition idle :: jobs where
  "idle = Jobs (Job 0 0 0) (Job 0 0 0) (Job 0 0 0) (Job 0 0 0)"

subsection \<open>The counters of a task set\<close>

text \<open>
  The counters of a task at time \<open>t\<close>; a task that was never released can release and
  is in neither phase.
\<close>

definition job_of :: "task_t \<Rightarrow> int \<Rightarrow> job" where
  "job_of T t =
     (if last_release_time T < 0 then Job 0 0 (nat (remaining_wcet T))
      else Job (nat (period T - (t - last_release_time T)))
               (nat (phase_change_point T - (t - last_release_time T)))
               (nat (remaining_wcet T)))"

definition jobs_of :: "taskset_t \<Rightarrow> int \<Rightarrow> jobs" where
  "jobs_of ts t =
     Jobs (job_of (tasks ts 0) t) (job_of (tasks ts 1) t) (job_of (tasks ts 2) t)
       (job_of (tasks ts 3) t)"

text \<open>The counters of a task that has just been released.\<close>

definition params_of :: "task_t \<Rightarrow> job" where
  "params_of T = Job (nat (period T)) (nat (phase_change_point T)) (nat (wcet T))"

definition params :: "taskset_t \<Rightarrow> jobs" where
  "params ts =
     Jobs (params_of (tasks ts 0)) (params_of (tasks ts 1)) (params_of (tasks ts 2))
       (params_of (tasks ts 3))"

text \<open>
  The priorities of phase 2 increase with the index of the task, and the priorities of
  phase 1 follow them and increase with the index: a task in phase 2 has precedence over
  every task in phase 1, and in the same phase the task of the lower index has
  precedence.
\<close>

definition prio_ordered :: "taskset_t \<Rightarrow> bool" where
  "prio_ordered ts =
     (0 \<le> phase_2_prio (tasks ts 0) \<and>
      phase_2_prio (tasks ts 0) < phase_2_prio (tasks ts 1) \<and>
      phase_2_prio (tasks ts 1) < phase_2_prio (tasks ts 2) \<and>
      phase_2_prio (tasks ts 2) < phase_2_prio (tasks ts 3) \<and>
      phase_2_prio (tasks ts 3) < phase_1_prio (tasks ts 0) \<and>
      phase_1_prio (tasks ts 0) < phase_1_prio (tasks ts 1) \<and>
      phase_1_prio (tasks ts 1) < phase_1_prio (tasks ts 2) \<and>
      phase_1_prio (tasks ts 2) < phase_1_prio (tasks ts 3))"

lemma missed_job_of: "job_missed (job_of T t) = has_missed_deadline T t"
  by (auto simp: job_of_def has_missed_deadline_def is_active_def can_release_def)

lemma first_of_if:
  "first_of a b c d =
     (if a then Some 0 else if b then Some 1 else if c then Some 2 else if d then Some 3
      else None)"
  by (cases a; cases b; cases c; cases d) simp_all

lemma miss_loop_4:
  "miss_loop ts t 0 =
     (if has_missed_deadline (tasks ts 0) t then Some 0
      else if has_missed_deadline (tasks ts 1) t then Some 1
      else if has_missed_deadline (tasks ts 2) t then Some 2
      else if has_missed_deadline (tasks ts 3) t then Some 3
      else None)"
proof -
  have 4: "miss_loop ts t 4 = None"
    by (subst miss_loop.simps) (simp add: NUM_TASKS_def)
  have 3: "miss_loop ts t 3 =
      (if has_missed_deadline (tasks ts 3) t then Some 3 else miss_loop ts t 4)"
    by (subst miss_loop.simps) (simp add: NUM_TASKS_def)
  have 2: "miss_loop ts t 2 =
      (if has_missed_deadline (tasks ts 2) t then Some 2 else miss_loop ts t 3)"
    by (subst miss_loop.simps) (simp add: NUM_TASKS_def)
  have 1: "miss_loop ts t 1 =
      (if has_missed_deadline (tasks ts 1) t then Some 1 else miss_loop ts t 2)"
    by (subst miss_loop.simps) (simp add: NUM_TASKS_def numeral_2_eq_2)
  have 0: "miss_loop ts t 0 =
      (if has_missed_deadline (tasks ts 0) t then Some 0 else miss_loop ts t 1)"
    by (subst miss_loop.simps) (simp add: NUM_TASKS_def)
  show ?thesis
    unfolding 0 1 2 3 4 ..
qed

lemma miss_loop_cmiss: "miss_loop ts t 0 = cmiss (jobs_of ts t)"
  by (simp add: miss_loop_4 jobs_of_def first_of_if missed_job_of)

lemma rel_job_of:
  "0 \<le> t \<Longrightarrow>
   job_release (params_of T) (job_of T t) = job_of (if can_release T t then release T t else T) t"
  by (auto simp: job_of_def params_of_def can_release_def release_def)

lemma jobs_of_release_loop:
  "0 \<le> t \<Longrightarrow> jobs_of (release_loop ts t 0) t = crel (params ts) (jobs_of ts t)"
  by (simp add: jobs_of_def params_def tasks_release_loop NUM_TASKS_def rel_job_of)

lemma adv_job_of: "job_advance (job_of T t) = job_of T (t + 1)"
  by (auto simp: job_of_def count_down_def nat_diff_distrib')

lemma jobs_of_adv: "cadv (jobs_of ts t) = jobs_of ts (t + 1)"
  by (simp add: jobs_of_def adv_job_of)


lemma active_job_of: "job_active (job_of T t) = is_active T"
  by (simp add: job_of_def is_active_def)

lemma urgent_job_of:
  "job_urgent (job_of T t) =
     (is_active T \<and>
      (last_release_time T < 0 \<or> \<not> t - last_release_time T < phase_change_point T))"
  by (auto simp: job_of_def is_active_def)

lemma all_less_4: "(\<forall>j<4::nat. P j) \<longleftrightarrow> P 0 \<and> P 1 \<and> P 2 \<and> P 3"
proof -
  have "j < 4 \<longleftrightarrow> j = 0 \<or> j = 1 \<or> j = 2 \<or> j = 3" for j :: nat by auto
  then show ?thesis by auto
qed

lemma csel_correct:
  assumes "prio_ordered ts" and "\<forall>i<NUM_TASKS. 0 \<le> last_release_time (tasks ts i)"
  shows "get_highest_prio_active_task ts t = csel (jobs_of ts t)"
proof -
  have nn: "\<forall>j<NUM_TASKS. 0 \<le> get_priority (tasks ts j) t"
    using assms(1) by (auto simp: prio_ordered_def NUM_TASKS_def all_less_4 get_priority_def)
  note inv = hp_inv_result [OF nn]
  have lr: "0 \<le> last_release_time (tasks ts 0)" "0 \<le> last_release_time (tasks ts 1)"
    "0 \<le> last_release_time (tasks ts 2)" "0 \<le> last_release_time (tasks ts 3)"
    using assms(2) by (simp_all add: NUM_TASKS_def)
  show ?thesis
  proof (cases "get_highest_prio_active_task ts t")
    case None
    with inv show ?thesis
      by (simp add: hp_inv_def NUM_TASKS_def all_less_4 jobs_of_def active_job_of
          urgent_job_of)
  next
    case (Some k)
    with inv have k: "k < 4" and act: "is_active (tasks ts k)"
      and le: "\<forall>j<4. is_active (tasks ts j) \<longrightarrow>
          get_priority (tasks ts k) t \<le> get_priority (tasks ts j) t"
      by (simp_all add: hp_inv_def NUM_TASKS_def)
    from k consider "k = 0" | "k = 1" | "k = 2" | "k = 3" by linarith
    then show ?thesis
    proof cases
      case 1
      with Some act le assms(1) lr show ?thesis
        by (auto simp: all_less_4 jobs_of_def active_job_of urgent_job_of first_of_if
            get_priority_def prio_ordered_def split: if_splits)
    next
      case 2
      with Some act le assms(1) lr show ?thesis
        by (auto simp: all_less_4 jobs_of_def active_job_of urgent_job_of first_of_if
            get_priority_def prio_ordered_def split: if_splits)
    next
      case 3
      with Some act le assms(1) lr show ?thesis
        by (auto simp: all_less_4 jobs_of_def active_job_of urgent_job_of first_of_if
            get_priority_def prio_ordered_def split: if_splits)
    next
      case 4
      with Some act le assms(1) lr show ?thesis
        by (auto simp: all_less_4 jobs_of_def active_job_of urgent_job_of first_of_if
            get_priority_def prio_ordered_def split: if_splits)
    qed
  qed
qed


lemma run_job_of: "job_run (job_of T t) = job_of (T\<lparr>remaining_wcet := remaining_wcet T - 1\<rparr>) t"
  by (simp add: job_of_def count_down_def nat_diff_distrib')

lemma jobs_of_execute:
  assumes "prio_ordered ts" and "\<forall>i<NUM_TASKS. 0 \<le> last_release_time (tasks ts i)"
  shows "jobs_of (execute ts t) t = cexec (jobs_of ts t)"
proof (cases "get_highest_prio_active_task ts t")
  case None
  then have "csel (jobs_of ts t) = None"
    using csel_correct [OF assms, of t] by simp
  then have "cexec (jobs_of ts t) = jobs_of ts t"
    by (simp add: cexec_def)
  moreover have "execute ts t = ts"
    using None by (simp add: execute_def)
  ultimately show ?thesis by simp
next
  case (Some k)
  let ?ts = "upd_task ts k (\<lambda>T. T\<lparr>remaining_wcet := remaining_wcet T - 1\<rparr>)"
  from Some have "csel (jobs_of ts t) = Some k"
    using csel_correct [OF assms, of t] by simp
  then have 1: "cexec (jobs_of ts t) = run_at (Some k) (jobs_of ts t)"
    by (simp add: cexec_def)
  have 2: "execute ts t = ?ts"
    using Some by (simp add: execute_def)
  from get_highest_prio_active_task_active [OF Some] have "k < 4"
    by (simp add: NUM_TASKS_def)
  then consider "k = 0" | "k = 1" | "k = 2" | "k = 3" by linarith
  then have "jobs_of ?ts t = run_at (Some k) (jobs_of ts t)"
    by cases (simp_all add: jobs_of_def run_job_of)
  with 1 2 show ?thesis by simp
qed

lemma prio_ordered_static:
  "\<forall>i<NUM_TASKS. static (tasks ts' i) = static (tasks ts i) \<Longrightarrow>
   prio_ordered ts' = prio_ordered ts"
  by (simp add: prio_ordered_def static_def NUM_TASKS_def all_less_4)

lemma params_static:
  "\<forall>i<NUM_TASKS. static (tasks ts' i) = static (tasks ts i) \<Longrightarrow> params ts' = params ts"
  by (simp add: params_def params_of_def static_def NUM_TASKS_def all_less_4)

lemma static_release_loop [simp]:
  "static (tasks (release_loop ts t 0) j) = static (tasks ts j)"
  by (simp add: tasks_release_loop)

lemma jobs_of_tick:
  assumes "prio_ordered ts" and "0 \<le> t"
  shows "jobs_of (tick ts t) (t + 1) = ctick (params ts) (jobs_of ts t)"
proof -
  let ?ts = "release_loop ts t 0"
  have 1: "prio_ordered ?ts"
    using assms(1) prio_ordered_static [of ?ts ts] by simp
  have 2: "\<forall>i<NUM_TASKS. 0 \<le> last_release_time (tasks ?ts i)"
    using assms(2) by (auto simp: tasks_release_loop can_release_def release_def)
  have "jobs_of (tick ts t) (t + 1) = cadv (jobs_of (execute ?ts t) t)"
    by (simp add: tick_def jobs_of_adv)
  also have "\<dots> = cadv (cexec (jobs_of ?ts t))"
    by (simp only: jobs_of_execute [OF 1 2])
  also have "\<dots> = ctick (params ts) (jobs_of ts t)"
    by (simp only: ctick_def jobs_of_release_loop [OF assms(2)])
  finally show ?thesis .
qed

lemma sim_loop_crun:
  "prio_ordered ts \<Longrightarrow> 0 \<le> t \<Longrightarrow>
   snd (sim_loop ts t) = crun (nat (hyper_period ts + 1 - t)) (params ts) (jobs_of ts t)"
proof (induction ts t rule: sim_loop.induct)
  case (1 ts t)
  show ?case
  proof (cases "t \<le> hyper_period ts")
    case False
    then have "nat (hyper_period ts + 1 - t) = 0" by simp
    moreover have "sim_loop ts t = (ts, None)"
      using False by (subst sim_loop.simps) simp
    ultimately show ?thesis by simp
  next
    case le: True
    then have n: "nat (hyper_period ts + 1 - t) = Suc (nat (hyper_period ts + 1 - (t + 1)))"
      by simp
    show ?thesis
    proof (cases "miss_loop ts t 0")
      case (Some k)
      have "sim_loop ts t = (ts, Some k)"
        using le Some by (subst sim_loop.simps) simp
      with Some show ?thesis
        unfolding n by (simp add: miss_loop_cmiss)
    next
      case None
      have so: "prio_ordered (tick ts t)"
        using "1.prems"(1) prio_ordered_static [of "tick ts t" ts] by simp
      have pa: "params (tick ts t) = params ts"
        by (rule params_static) simp
      have "sim_loop ts t = sim_loop (tick ts t) (t + 1)"
        using le None by (subst sim_loop.simps) simp
      moreover have "snd (sim_loop (tick ts t) (t + 1)) =
          crun (nat (hyper_period ts + 1 - (t + 1))) (params ts) (jobs_of (tick ts t) (t + 1))"
        using "1.IH" [OF le None so] "1.prems"(2) by (simp add: pa)
      ultimately show ?thesis
        using None unfolding n
        by (simp add: miss_loop_cmiss [symmetric] jobs_of_tick [OF "1.prems"])
    qed
  qed
qed

lemma jobs_of_reset: "jobs_of (reset_simulation_state ts) t = idle"
  by (simp add: jobs_of_def idle_def job_of_def tasks_reset_simulation_state NUM_TASKS_def)

lemma simulate_sas_crun:
  assumes "prio_ordered ts"
  shows "snd (simulate_sas ts) = crun (nat (hyper_period ts + 1)) (params ts) idle"
proof -
  have 1: "prio_ordered (reset_simulation_state ts)"
    using assms prio_ordered_static [of "reset_simulation_state ts" ts] by simp
  have 2: "params (reset_simulation_state ts) = params ts"
    by (rule params_static) simp
  from sim_loop_crun [OF 1, of 0] show ?thesis
    by (simp add: simulate_sas_def 2 jobs_of_reset)
qed


subsection \<open>The FDMS policy on the counters\<close>

text \<open>
  The loop of \<^verbatim>\<open>test_fdms_phase_change_points\<close>: the phase change points are the second
  counters of \<open>K\<close>.
\<close>

fun cp :: "job \<Rightarrow> nat" where
  "cp (Job d c r) = c"

fun dec_cp :: "job \<Rightarrow> job" where
  "dec_cp (Job d c r) = Job d (count_down c) r"

fun pcp_of :: "jobs \<Rightarrow> nat \<Rightarrow> nat" where
  "pcp_of (Jobs a b c d) k =
     (if k = 0 then cp a else if k = 1 then cp b else if k = 2 then cp c
      else if k = 3 then cp d else 0)"

fun dec_pcp :: "jobs \<Rightarrow> nat \<Rightarrow> jobs" where
  "dec_pcp (Jobs a b c d) k =
     (if k = 0 then Jobs (dec_cp a) b c d
      else if k = 1 then Jobs a (dec_cp b) c d
      else if k = 2 then Jobs a b (dec_cp c) d
      else if k = 3 then Jobs a b c (dec_cp d)
      else Jobs a b c d)"

fun pcp_total :: "jobs \<Rightarrow> nat" where
  "pcp_total (Jobs a b c d) = cp a + cp b + cp c + cp d"

lemma pcp_total_dec_pcp: "0 < pcp_of K k \<Longrightarrow> pcp_total (dec_pcp K k) < pcp_total K"
proof (cases K)
  case (Jobs a b c d)
  then show "0 < pcp_of K k \<Longrightarrow> pcp_total (dec_pcp K k) < pcp_total K"
    by (cases a; cases b; cases c; cases d) (auto simp: count_down_def split: if_splits)
qed

function cfdms :: "nat \<Rightarrow> jobs \<Rightarrow> int" where
  "cfdms n K =
     (case crun n K idle of
        None \<Rightarrow> 1
      | Some k \<Rightarrow> if 0 < pcp_of K k then cfdms n (dec_pcp K k) else 0)"
  by pat_completeness auto
termination
  by (relation "measure (\<lambda>(n, K). pcp_total K)") (simp_all add: pcp_total_dec_pcp)

declare cfdms.simps [simp del]

lemma pcp_of_params:
  "k < NUM_TASKS \<Longrightarrow> 0 < pcp_of (params ts) k \<longleftrightarrow> 0 < phase_change_point (tasks ts k)"
proof -
  assume "k < NUM_TASKS"
  then consider "k = 0" | "k = 1" | "k = 2" | "k = 3" unfolding NUM_TASKS_def by linarith
  then show ?thesis
    by cases (simp_all add: params_def params_of_def)
qed

lemma params_dec_pcp:
  "k < NUM_TASKS \<Longrightarrow>
   params (upd_task ts k (\<lambda>T. T\<lparr>phase_change_point := phase_change_point T - 1\<rparr>)) =
     dec_pcp (params ts) k"
proof -
  assume "k < NUM_TASKS"
  then consider "k = 0" | "k = 1" | "k = 2" | "k = 3" unfolding NUM_TASKS_def by linarith
  then show ?thesis
    by cases (simp_all add: params_def params_of_def count_down_def nat_diff_distrib')
qed

lemma prio_ordered_dec_pcp:
  "prio_ordered (upd_task ts k (\<lambda>T. T\<lparr>phase_change_point := phase_change_point T - 1\<rparr>)) =
     prio_ordered ts"
  by (simp add: prio_ordered_def)

lemma fdms_loop_cfdms:
  "prio_ordered ts \<Longrightarrow>
   fst (fdms_loop ts s) = cfdms (nat (hyper_period ts + 1)) (params ts)"
proof (induction ts s rule: fdms_loop.induct)
  case (1 ts sims)
  obtain ts1 y where sim: "simulate_sas ts = (ts1, y)" by (cases "simulate_sas ts")
  then have ts1: "ts1 = fst (simulate_sas ts)" and y: "y = snd (simulate_sas ts)" by simp_all
  have res: "crun (nat (hyper_period ts + 1)) (params ts) idle = y"
    using simulate_sas_crun [OF "1.prems"] y by simp
  have po: "prio_ordered ts1"
    using "1.prems" prio_ordered_static [of ts1 ts] by (simp add: ts1)
  have pa: "params ts1 = params ts"
    unfolding ts1 by (rule params_static) simp
  have hp: "hyper_period ts1 = hyper_period ts"
    by (simp add: ts1)
  show ?case
  proof (cases y)
    case None
    with sim res show ?thesis
      by (subst fdms_loop.simps, subst cfdms.simps) simp
  next
    case (Some k)
    with y have k: "k < NUM_TASKS" by (intro simulate_sas_index) simp
    show ?thesis
    proof (cases "0 < phase_change_point (tasks ts1 k)")
      case False
      with sim Some res pcp_of_params [OF k, of ts1] show ?thesis
        by (subst fdms_loop.simps, subst cfdms.simps) (simp add: pa)
    next
      case True
      let ?ts = "upd_task ts1 k (\<lambda>T. T\<lparr>phase_change_point := phase_change_point T - 1\<rparr>)"
      have "fst (fdms_loop ?ts (sims + 1)) = cfdms (nat (hyper_period ?ts + 1)) (params ?ts)"
        using po by (intro "1.IH" [OF sim [symmetric] Some True]) (simp add: prio_ordered_dec_pcp)
      then have "fst (fdms_loop ?ts (sims + 1)) =
          cfdms (nat (hyper_period ts + 1)) (dec_pcp (params ts) k)"
        by (simp add: params_dec_pcp [OF k] pa hp)
      with sim Some res True pcp_of_params [OF k, of ts1] show ?thesis
        by (subst fdms_loop.simps, subst cfdms.simps) (simp add: pa)
    qed
  qed
qed

lemma test_fdms_cfdms:
  assumes "prio_ordered ts"
  shows "fst (test_fdms_phase_change_points ts) =
     cfdms (nat (hyper_period ts + 1)) (params (fdms_init ts))"
proof -
  have 1: "prio_ordered (fdms_init ts)"
    using assms by (simp add: prio_ordered_def fdms_init_def Let_def)
  have 2: "hyper_period (fdms_init ts) = hyper_period ts"
    by (simp add: fdms_init_def Let_def)
  from fdms_loop_cfdms [OF 1, of 0] show ?thesis
    by (cases "fdms_loop (fdms_init ts) 0") (simp add: test_fdms_phase_change_points_def 2)
qed

subsection \<open>Evaluation\<close>

text \<open>
  The equations that evaluate the two loops on counters written as numerals, one pass
  after the other.
\<close>

definition crun_next :: "nat option \<Rightarrow> nat \<Rightarrow> jobs \<Rightarrow> jobs \<Rightarrow> nat option" where
  "crun_next r n K s = (case r of Some k \<Rightarrow> Some k | None \<Rightarrow> crun n K (ctick K s))"

definition cfdms_next :: "nat option \<Rightarrow> nat \<Rightarrow> jobs \<Rightarrow> int" where
  "cfdms_next r n K =
     (case r of None \<Rightarrow> 1
      | Some k \<Rightarrow> if 0 < pcp_of K k then cfdms n (dec_pcp K k) else 0)"

lemma crun_eval:
  "crun 0 K s = None"
  "crun (numeral m) K s = crun_next (cmiss s) (pred_numeral m) K s"
  "crun_next (Some k) n K s = Some k"
  "crun_next None n K s = crun n K (cadv (cexec (crel K s)))"
  by (simp_all add: crun_next_def numeral_eq_Suc ctick_def)

lemma cfdms_eval:
  "cfdms n K = cfdms_next (crun n K idle) n K"
  "cfdms_next None n K = 1"
  "cfdms_next (Some 0) n (Jobs (Job pa 0 wa) b c d) = 0"
  "cfdms_next (Some 1) n (Jobs a (Job pb 0 wb) c d) = 0"
  "cfdms_next (Some 2) n (Jobs a b (Job pc 0 wc) d) = 0"
  "cfdms_next (Some 3) n (Jobs a b c (Job pd 0 wd)) = 0"
  "cfdms_next (Some 0) n (Jobs (Job pa (numeral m) wa) b c d) =
     cfdms n (Jobs (Job pa (pred_numeral m) wa) b c d)"
  "cfdms_next (Some 1) n (Jobs a (Job pb (numeral m) wb) c d) =
     cfdms n (Jobs a (Job pb (pred_numeral m) wb) c d)"
  "cfdms_next (Some 2) n (Jobs a b (Job pc (numeral m) wc) d) =
     cfdms n (Jobs a b (Job pc (pred_numeral m) wc) d)"
  "cfdms_next (Some 3) n (Jobs a b c (Job pd (numeral m) wd)) =
     cfdms n (Jobs a b c (Job pd (pred_numeral m) wd))"
  by (simp_all add: cfdms_next_def cfdms.simps [of n K] count_down_def numeral_eq_Suc)

lemma job_eval:
  "job_missed (Job 0 c (numeral m)) = True"
  "job_missed (Job 0 c 0) = False"
  "job_missed (Job (numeral m) c r) = False"
  "job_release K (Job 0 c r) = K"
  "job_release K (Job (numeral m) c r) = Job (numeral m) c r"
  "job_advance (Job d c r) = Job (count_down d) (count_down c) r"
  "job_run (Job d c r) = Job d c (count_down r)"
  "job_urgent (Job d 0 (numeral m)) = True"
  "job_urgent (Job d 0 0) = False"
  "job_urgent (Job d (numeral m) r) = False"
  "job_active (Job d c (numeral m)) = True"
  "job_active (Job d c 0) = False"
  "count_down 0 = 0"
  "count_down (numeral m) = pred_numeral m"
  by (simp_all add: count_down_def numeral_eq_Suc)

lemma run_at_eval:
  "run_at None s = s"
  "run_at (Some 0) (Jobs a b c d) = Jobs (job_run a) b c d"
  "run_at (Some 1) (Jobs a b c d) = Jobs a (job_run b) c d"
  "run_at (Some 2) (Jobs a b c d) = Jobs a b (job_run c) d"
  "run_at (Some 3) (Jobs a b c d) = Jobs a b c (job_run d)"
  by simp_all

lemmas run_eval = crun_eval job_eval run_at_eval cmiss.simps crel.simps csel.simps cadv.simps
  cexec_def first_of.simps or_else.simps pred_numeral_simps BitM.simps idle_def

subsection \<open>The hyper-period\<close>

text \<open>
  \<^verbatim>\<open>gcd\<close>, \<^verbatim>\<open>lcm\<close> and \<^verbatim>\<open>hyper_period\<close>. The operators \<^verbatim>\<open>/\<close> and \<^verbatim>\<open>%\<close> of C
  truncate towards zero; a division by zero, which \<^verbatim>\<open>lcm\<close> meets when both its
  arguments are 0, has no result.
\<close>

definition c_div :: "int \<Rightarrow> int \<Rightarrow> int" where
  "c_div a b = sgn a * sgn b * (\<bar>a\<bar> div \<bar>b\<bar>)"

definition c_mod :: "int \<Rightarrow> int \<Rightarrow> int" where
  "c_mod a b = sgn a * (\<bar>a\<bar> mod \<bar>b\<bar>)"

lemma abs_c_mod: "b \<noteq> 0 \<Longrightarrow> \<bar>c_mod a b\<bar> < \<bar>b\<bar>"
  by (cases "a = 0") (simp_all add: c_mod_def abs_mult abs_sgn_eq)

function gcd_c :: "int \<Rightarrow> int \<Rightarrow> int" where
  "gcd_c a b = (if b \<noteq> 0 then gcd_c b (c_mod a b) else a)"
  by pat_completeness auto
termination
  by (relation "measure (\<lambda>(a, b). nat \<bar>b\<bar>)") (simp_all add: abs_c_mod)

declare gcd_c.simps [simp del]

definition lcm_c :: "int \<Rightarrow> int \<Rightarrow> int option" where
  "lcm_c a b = (let g = gcd_c a b in if g = 0 then None else Some (c_div a g * b))"

function hyper_period_loop :: "taskset_t \<Rightarrow> nat \<Rightarrow> int \<Rightarrow> int option" where
  "hyper_period_loop ts i hp =
     (if i < NUM_TASKS
      then (case lcm_c hp (period (tasks ts i)) of
              None \<Rightarrow> None
            | Some hp' \<Rightarrow> hyper_period_loop ts (i + 1) hp')
      else Some hp)"
  by pat_completeness auto
termination
  by (relation "measure (\<lambda>(ts, i, hp). NUM_TASKS - i)") auto

declare hyper_period_loop.simps [simp del]

definition hyper_period_c :: "taskset_t \<Rightarrow> int option" where
  "hyper_period_c ts = hyper_period_loop ts 0 1"

lemma hyper_period_c_ex_fdms: "hyper_period_c ex_fdms = Some 187220"
  by code_simp

lemma prio_ordered_ex_fdms: "prio_ordered ex_fdms"
  by (simp add: prio_ordered_def ex_fdms_def mk_taskset_def mk_task_def)

lemma params_ex_fdms:
  "params ex_fdms = Jobs (Job 11 5 6) (Job 20 3 6) (Job 46 25 4) (Job 74 35 5)"
  by (simp add: params_def params_of_def ex_fdms_def mk_taskset_def mk_task_def)

lemma params_fdms_init_ex_fdms:
  "params (fdms_init ex_fdms) = Jobs (Job 11 11 6) (Job 20 20 6) (Job 46 46 4) (Job 74 74 5)"
  by (simp add: params_def params_of_def fdms_init_def ex_fdms_def mk_taskset_def mk_task_def)

lemma hyper_period_ex_fdms: "nat (hyper_period ex_fdms + 1) = 187221"
  by (simp add: ex_fdms_def mk_taskset_def)

lemmas fdms_eval = cfdms_eval run_eval

text \<open>The simulation with the phase change points 5, 3, 25 and 35: 187221 passes.\<close>

lemma run_ex_fdms:
  "crun 187221 (Jobs (Job 11 5 6) (Job 20 3 6) (Job 46 25 4) (Job 74 35 5)) idle = None"
  by (simp only: run_eval)

text \<open>
  The FDMS policy: 133 simulations, the last of which ends with a deadline miss of a task
  whose phase change point is 0.
\<close>

lemma cfdms_ex_fdms:
  "cfdms 187221 (Jobs (Job 11 11 6) (Job 20 20 6) (Job 46 46 4) (Job 74 74 5)) = 0"
  by (simp only: fdms_eval)

text \<open>
  The task set that \<^verbatim>\<open>test_fdms_phase_change_points\<close> leaves behind differs from
  \<open>ex_fdms\<close> in the phase change points and the simulation state only.
\<close>

lemma simulate_sas_after_fdms:
  assumes "snd (simulate_sas ex_fdms) = None"
  shows "snd (simulate_sas (with_pcps (snd (test_fdms_phase_change_points ex_fdms)) 5 3 25 35))
           = None"
proof -
  let ?ts = "snd (test_fdms_phase_change_points ex_fdms)"
  have "?ts = fst (snd (fdms_loop (fdms_init ex_fdms) 0))"
    by (cases "fdms_loop (fdms_init ex_fdms) 0") (simp add: test_fdms_phase_change_points_def)
  then have "keeps UNIV ex_fdms ?ts"
    using keeps_trans [OF keeps_fdms_init keeps_fdms_loop, of ex_fdms 0] by simp
  from schedulable_with_cong [OF this]
  have "schedulable_with ?ts 5 3 25 35 = schedulable_with ex_fdms 5 3 25 35" .
  moreover have "schedulable_with ex_fdms 5 3 25 35"
    using assms schedulable_with_current [of ex_fdms]
    by (simp add: ex_fdms_def mk_taskset_def mk_task_def)
  ultimately show ?thesis
    by (simp add: schedulable_with_def)
qed

text \<open>
  Claim C8. For the task set of \<^verbatim>\<open>verify_counterexample_3\<close>, with the (wcet, period)
  pairs (6,11), (6,20), (4,46), (5,74), the (phase 1 priority, phase 2 priority) pairs
  (4,0), (5,1), (6,2), (7,3) and the hyper-period 187220 that \<^verbatim>\<open>hyper_period\<close>
  computes, \<^verbatim>\<open>test_fdms_phase_change_points\<close> returns 0, and \<^verbatim>\<open>simulate_sas\<close> with the
  phase change points 5, 3, 25 and 35 returns \<^verbatim>\<open>NULL\<close>: no task misses its deadline. The
  simulation also returns \<^verbatim>\<open>NULL\<close> when these phase change points are set in the task
  set that \<^verbatim>\<open>test_fdms_phase_change_points\<close> has left behind, as the driver does.
\<close>

theorem fdms_policy_not_optimal:
  "map (\<lambda>i. static (tasks ex_fdms i)) [0..<NUM_TASKS] =
     [(6, 11, 4, 0, 5), (6, 20, 5, 1, 3), (4, 46, 6, 2, 25), (5, 74, 7, 3, 35)] \<and>
   hyper_period_c ex_fdms = Some (hyper_period ex_fdms) \<and>
   fst (test_fdms_phase_change_points ex_fdms) = 0 \<and>
   snd (simulate_sas ex_fdms) = None \<and>
   snd (simulate_sas (with_pcps (snd (test_fdms_phase_change_points ex_fdms)) 5 3 25 35)) = None"
proof -
  have 1: "map (\<lambda>i. static (tasks ex_fdms i)) [0..<NUM_TASKS] =
     [(6, 11, 4, 0, 5), (6, 20, 5, 1, 3), (4, 46, 6, 2, 25), (5, 74, 7, 3, 35)]"
    by (simp add: upt_NUM_TASKS static_def ex_fdms_def mk_taskset_def mk_task_def)
  have 2: "hyper_period_c ex_fdms = Some (hyper_period ex_fdms)"
    unfolding hyper_period_c_ex_fdms by (simp add: ex_fdms_def mk_taskset_def)
  have 3: "fst (test_fdms_phase_change_points ex_fdms) = 0"
    using test_fdms_cfdms [OF prio_ordered_ex_fdms]
    by (simp only: hyper_period_ex_fdms params_fdms_init_ex_fdms cfdms_ex_fdms)
  have 4: "snd (simulate_sas ex_fdms) = None"
    using simulate_sas_crun [OF prio_ordered_ex_fdms]
    by (simp only: hyper_period_ex_fdms params_ex_fdms run_ex_fdms)
  from 1 2 3 4 simulate_sas_after_fdms [OF 4] show ?thesis by (intro conjI)
qed

end
